theory Spec2Isabelle
  imports Main "HOL-Library.AList"
begin

section \<open>Workflow scheduler (core/workflow/workflow.ts)\<close>

text \<open>
  The scheduler runs on one event loop. Everything it does between two \<open>await\<close>s is
  atomic; what happens during an \<open>await\<close> is decided by the environment. The model
  makes the environment a value (\<open>world\<close>):
  \<^item> \<open>shouldCancel w n\<close> is what \<open>options.shouldCancel?.()\<close> returns at the top of tick
    \<open>n\<close> (an absent predicate is the constant \<open>False\<close>);
  \<^item> \<open>settled w n ids\<close> lists, in order, the steps whose bodies settle while the scheduler
    is suspended in the wait of tick \<open>n\<close>, when the promises of \<open>ids\<close> are in the map;
  \<^item> \<open>elapsed w i\<close> is \<open>Math.round(performance.now() - start)\<close> for step \<open>i\<close>.

  A step body \<open>run\<close> either throws before it returns a promise (an ordinary function
  that raises) or returns a promise that is fulfilled or rejected (\<open>Async\<close>). What is
  thrown or rejected matters to the \<open>catch\<close> block, which reads
  \<open>(error as Error).message ?? 'Unknown error'\<close>:
  \<^item> \<open>ThrowsSync m\<close>, \<open>Rejected m\<close>: a value other than \<open>null\<close> and \<open>undefined\<close>, whose property
    \<open>message\<close> is \<open>m\<close> (\<open>None\<close> when the property is \<open>null\<close> or \<open>undefined\<close>, as for a thrown
    string);
  \<^item> \<open>ThrowsNullish\<close>, \<open>RejectedNullish\<close>: the value \<open>null\<close> or \<open>undefined\<close>; reading its
    \<open>message\<close> raises a \<open>TypeError\<close> inside the \<open>catch\<close> block, so no status and no result
    is written, the \<open>finally\<close> block still runs, and the promise of the wrapper rejects.

  The progress callback, the logger and \<open>logStep\<close>/\<open>logError\<close> only observe; they are left
  out. The elements of the input array are taken to be distinct objects; \<open>ident\<close> is the
  source's field \<open>id\<close>, \<open>r_label\<close> the field \<open>label\<close> of a result.

  \<open>runningPromises\<close> is keyed by the identifier. The model follows the code on lists in
  which no identifier is repeated: there \<open>runningPromises.set\<close> never replaces a promise
  that is still in flight. (With a repeated identifier the code would go on running the
  body of the replaced promise; the model has no place for it.)
\<close>

datatype WorkflowRunStatus = S_running | S_success | S_error | S_skipped | S_pending | S_warning

datatype settlement = Fulfilled | Rejected "string option" | RejectedNullish

datatype run_behaviour = ThrowsSync "string option" | ThrowsNullish | Async settlement

record WorkflowStep =
  ident :: string
  label :: string
  enabled :: bool
  run :: run_behaviour
  dependsOn :: "string list option"
  sessionId :: "string option"

record WorkflowRunResult =
  stepId :: string
  r_label :: string
  status :: WorkflowRunStatus
  error :: "string option"
  durationMs :: nat

record world =
  shouldCancel :: "nat \<Rightarrow> bool"
  settled :: "nat \<Rightarrow> string list \<Rightarrow> string list"
  elapsed :: "string \<Rightarrow> nat"

text \<open>
  A promise in \<open>runningPromises\<close> is either still in flight (it carries the step its
  closure captured and how the body will settle), or already fulfilled (\<open>Settled\<close>), or
  already rejected with the \<open>TypeError\<close> of its \<open>catch\<close> block (\<open>Failed\<close>). A call of
  \<open>runWorkflow\<close> returns a list or rejects with that \<open>TypeError\<close>.
\<close>

datatype promise = InFlight WorkflowStep settlement | Settled | Failed

datatype rejection = TypeError

record sched =
  results :: "WorkflowRunResult list"
  statusById :: "string \<rightharpoonup> WorkflowRunStatus"
  runningPromises :: "(string \<times> promise) list"
  pendingSteps :: "WorkflowStep list"

definition mkResult ::
  "WorkflowStep \<Rightarrow> WorkflowRunStatus \<Rightarrow> nat \<Rightarrow> string option \<Rightarrow> WorkflowRunResult" where
  "mkResult step s d e =
     \<lparr>stepId = ident step, r_label = label step, status = s, error = e, durationMs = d\<rparr>"

text \<open>\<open>statusById.set(step.id, s); results.push({...})\<close>, the pair every terminal branch runs.\<close>

definition finish ::
  "WorkflowStep \<Rightarrow> WorkflowRunStatus \<Rightarrow> nat \<Rightarrow> string option \<Rightarrow> sched \<Rightarrow> sched" where
  "finish step s d e st =
     st\<lparr>statusById := (statusById st)(ident step \<mapsto> s),
        results := results st @ [mkResult step s d e]\<rparr>"

definition deletePending :: "WorkflowStep \<Rightarrow> sched \<Rightarrow> sched" where
  "deletePending step st = st\<lparr>pendingSteps := removeAll step (pendingSteps st)\<rparr>"

text \<open>The first loop: disabled steps are skipped at once, the others are marked pending.\<close>

fun markDisabled :: "WorkflowStep list \<Rightarrow> sched \<Rightarrow> sched" where
  "markDisabled [] st = st"
| "markDisabled (step # rest) st =
     markDisabled rest
       (if \<not> enabled step
        then deletePending step (finish step S_skipped 0 None st)
        else st\<lparr>statusById := (statusById st)(ident step \<mapsto> S_pending)\<rparr>)"

definition deps :: "WorkflowStep \<Rightarrow> string list" where
  "deps step = (case dependsOn step of None \<Rightarrow> [] | Some ds \<Rightarrow> ds)"

definition anyDepFailed :: "sched \<Rightarrow> string list \<Rightarrow> bool" where
  "anyDepFailed st ds =
     list_ex (\<lambda>depId. statusById st depId = Some S_error \<or> statusById st depId = Some S_skipped) ds"

definition allDepsSuccess :: "sched \<Rightarrow> string list \<Rightarrow> bool" where
  "allDepsSuccess st ds = list_all (\<lambda>depId. statusById st depId = Some S_success) ds"

text \<open>
  The scan \<open>for (const step of pendingSteps)\<close>: the first argument is what is left to
  visit, the last the array \<open>readySteps\<close>.
\<close>

fun findReady :: "WorkflowStep list \<Rightarrow> sched \<Rightarrow> WorkflowStep list \<Rightarrow> sched \<times> WorkflowStep list" where
  "findReady [] st readySteps = (st, readySteps)"
| "findReady (step # rest) st readySteps =
     (if anyDepFailed st (deps step)
      then findReady rest
             (deletePending step (finish step S_skipped 0 (Some ''Dependency failed'') st))
             readySteps
      else if allDepsSuccess st (deps step)
      then findReady rest st (readySteps @ [step])
      else findReady rest st readySteps)"

definition errMessage :: "string option \<Rightarrow> string" where
  "errMessage m = (case m of None \<Rightarrow> ''Unknown error'' | Some s \<Rightarrow> s)"

text \<open>
  Launching a ready step runs the async wrapper up to its first \<open>await\<close>. When \<open>step.run()\<close>
  throws before returning, the \<open>catch\<close> and the \<open>finally\<close> blocks run at once, so
  \<open>runningPromises.delete(step.id)\<close> comes before \<open>runningPromises.set(step.id, promise)\<close>,
  and the promise put into the map is already fulfilled, or already rejected when the
  \<open>catch\<close> block itself threw.
\<close>

definition launchStep :: "world \<Rightarrow> WorkflowStep \<Rightarrow> sched \<Rightarrow> sched" where
  "launchStep w step st =
     (let st1 = deletePending step st;
          st2 = st1\<lparr>statusById := (statusById st1)(ident step \<mapsto> S_running)\<rparr>
      in case run step of
           ThrowsSync m \<Rightarrow>
             (let st3 = finish step S_error (elapsed w (ident step)) (Some (errMessage m)) st2;
                  st4 = st3\<lparr>runningPromises := AList.delete (ident step) (runningPromises st3)\<rparr>
              in st4\<lparr>runningPromises := AList.update (ident step) Settled (runningPromises st4)\<rparr>)
         | ThrowsNullish \<Rightarrow>
             (let st3 = st2\<lparr>runningPromises := AList.delete (ident step) (runningPromises st2)\<rparr>
              in st3\<lparr>runningPromises := AList.update (ident step) Failed (runningPromises st3)\<rparr>)
         | Async out \<Rightarrow>
             st2\<lparr>runningPromises :=
                   AList.update (ident step) (InFlight step out) (runningPromises st2)\<rparr>)"

definition launch :: "world \<Rightarrow> WorkflowStep list \<Rightarrow> sched \<Rightarrow> sched" where
  "launch w readySteps st = fold (launchStep w) readySteps st"

text \<open>
  The rest of the async wrapper, run when the awaited body settles. After a rejection with
  \<open>null\<close> or \<open>undefined\<close> only the \<open>finally\<close> block has an effect.
\<close>

definition settle :: "world \<Rightarrow> WorkflowStep \<times> settlement \<Rightarrow> sched \<Rightarrow> sched" where
  "settle w p st =
     (let step = fst p;
          st1 = (case snd p of
                   Fulfilled \<Rightarrow> finish step S_success (elapsed w (ident step)) None st
                 | Rejected m \<Rightarrow>
                     finish step S_error (elapsed w (ident step)) (Some (errMessage m)) st
                 | RejectedNullish \<Rightarrow> st)
      in st1\<lparr>runningPromises := AList.delete (ident step) (runningPromises st1)\<rparr>)"

definition inFlightOf :: "sched \<Rightarrow> string \<Rightarrow> (WorkflowStep \<times> settlement) option" where
  "inFlightOf st i =
     (case map_of (runningPromises st) i of
        Some (InFlight step out) \<Rightarrow> Some (step, out)
      | _ \<Rightarrow> None)"

definition settledNow :: "world \<Rightarrow> nat \<Rightarrow> sched \<Rightarrow> (WorkflowStep \<times> settlement) list" where
  "settledNow w n st =
     List.map_filter (inFlightOf st) (remdups (settled w n (map fst (runningPromises st))))"

definition isSettled :: "promise \<Rightarrow> bool" where
  "isSettled p = (case p of Settled \<Rightarrow> True | Failed \<Rightarrow> True | InFlight _ _ \<Rightarrow> False)"

text \<open>
  \<open>await Promise.race(runningPromises.values())\<close> takes the outcome of the first promise of
  the map to settle: the first already settled one in the order of the map, if there is
  one, otherwise the promise of the first body to settle during the wait. The \<open>await\<close>
  resumes when that promise is fulfilled and throws when it is rejected; \<open>None\<close> is a wait
  that never ends. The bodies that settle during the wait have all run their wrappers
  by the time the scheduler goes on.
\<close>

definition awaitRace :: "world \<Rightarrow> nat \<Rightarrow> sched \<Rightarrow> (rejection + sched) option" where
  "awaitRace w n st =
     (let done = settledNow w n st;
          st1 = fold (settle w) done st
      in case find (\<lambda>kp. isSettled (snd kp)) (runningPromises st) of
           Some kp \<Rightarrow> if snd kp = Failed then Some (Inl TypeError) else Some (Inr st1)
         | None \<Rightarrow>
             (case done of
                [] \<Rightarrow> None
              | p # _ \<Rightarrow> if snd p = RejectedNullish then Some (Inl TypeError) else Some (Inr st1)))"

text \<open>
  \<open>await Promise.allSettled(runningPromises.values())\<close> resumes once all of them are
  settled, fulfilled or rejected; it never throws.
\<close>

definition awaitAllSettled :: "world \<Rightarrow> nat \<Rightarrow> sched \<Rightarrow> sched option" where
  "awaitAllSettled w n st =
     (let st1 = fold (settle w) (settledNow w n st) st
      in if list_all (\<lambda>kp. isSettled (snd kp)) (runningPromises st1) then Some st1 else None)"

definition cancelPending :: "sched \<Rightarrow> sched" where
  "cancelPending st =
     (fold (\<lambda>step. finish step S_skipped 0 (Some ''Cancelled'')) (pendingSteps st) st)
       \<lparr>pendingSteps := []\<rparr>"

definition markDeadlock :: "sched \<Rightarrow> sched" where
  "markDeadlock st =
     fold (\<lambda>step. finish step S_error 0 (Some ''Deadlock: dependencies never met''))
       (pendingSteps st) st"

text \<open>
  The \<open>while\<close> loop, one unfolding per tick: \<open>None\<close> is a run that never returns,
  \<open>Some (Inl TypeError)\<close> a run that rejects, \<open>Some (Inr rs)\<close> a run that returns \<open>rs\<close>.
\<close>

partial_function (option) schedule ::
  "world \<Rightarrow> nat \<Rightarrow> sched \<Rightarrow> (rejection + WorkflowRunResult list) option" where
  "schedule w n st =
     (if pendingSteps st = [] \<and> runningPromises st = [] then Some (Inr (results st))
      else if shouldCancel w n then
        (let st1 = cancelPending st
         in if runningPromises st1 \<noteq> []
            then map_option (\<lambda>st2. Inr (results st2)) (awaitAllSettled w n st1)
            else Some (Inr (results st1)))
      else
        (let (st1, readySteps) = findReady (pendingSteps st) st [];
             st2 = launch w readySteps st1
         in if runningPromises st2 = [] \<and> pendingSteps st2 \<noteq> []
            then Some (Inr (results (markDeadlock st2)))
            else if runningPromises st2 = [] \<and> pendingSteps st2 = [] then Some (Inr (results st2))
            else (case awaitRace w n st2 of
                    None \<Rightarrow> None
                  | Some (Inl e) \<Rightarrow> Some (Inl e)
                  | Some (Inr st3) \<Rightarrow> schedule w (Suc n) st3)))"

declare schedule.simps [code]

definition initial :: "WorkflowStep list \<Rightarrow> sched" where
  "initial steps =
     \<lparr>results = [], statusById = Map.empty, runningPromises = [], pendingSteps = steps\<rparr>"

definition runWorkflow ::
  "world \<Rightarrow> WorkflowStep list \<Rightarrow> (rejection + WorkflowRunResult list) option" where
  "runWorkflow w steps = schedule w 0 (markDisabled steps (initial steps))"

subsection \<open>Scheduler: terminal statuses, provenance of results, invariant\<close>

text \<open>The three statuses a result may carry.\<close>

definition terminal :: "WorkflowRunStatus \<Rightarrow> bool" where
  "terminal s = (s = S_success \<or> s = S_error \<or> s = S_skipped)"

text \<open>
  The result a step gets when its body is run: what the body did, and the measured time.
  A body that throws or rejects with \<open>null\<close> or \<open>undefined\<close> (\<open>nullish\<close>) gets none.
\<close>

definition nullish :: "run_behaviour \<Rightarrow> bool" where
  "nullish b = (b = ThrowsNullish \<or> b = Async RejectedNullish)"

definition bodyResult :: "world \<Rightarrow> WorkflowStep \<Rightarrow> WorkflowRunResult option" where
  "bodyResult w s =
     (case run s of
        Async Fulfilled \<Rightarrow> Some (mkResult s S_success (elapsed w (ident s)) None)
      | Async (Rejected m) \<Rightarrow> Some (mkResult s S_error (elapsed w (ident s)) (Some (errMessage m)))
      | Async RejectedNullish \<Rightarrow> None
      | ThrowsSync m \<Rightarrow> Some (mkResult s S_error (elapsed w (ident s)) (Some (errMessage m)))
      | ThrowsNullish \<Rightarrow> None)"

text \<open>No enabled step throws or rejects with \<open>null\<close> or \<open>undefined\<close>.\<close>

definition readableErrors :: "WorkflowStep list \<Rightarrow> bool" where
  "readableErrors steps \<longleftrightarrow> (\<forall>s\<in>set steps. enabled s \<longrightarrow> \<not> nullish (run s))"

text \<open>
  A step is lost when it was started and its wrapper ended without writing a result: its
  status stays \<open>running\<close>.
\<close>

definition lost :: "(string \<rightharpoonup> WorkflowRunStatus) \<Rightarrow> WorkflowStep \<Rightarrow> bool" where
  "lost m s \<longleftrightarrow> enabled s \<and> nullish (run s) \<and> m (ident s) = Some S_running \<and>
     (\<forall>d\<in>set (deps s). m d = Some S_success)"

text \<open>
  \<open>depsCovered seen steps\<close>: every identifier in a step's \<open>dependsOn\<close> is in \<open>seen\<close> or names
  a step earlier in the list. \<open>depsCovered {} steps\<close> says the list is in dependency order.
\<close>

fun depsCovered :: "string set \<Rightarrow> WorkflowStep list \<Rightarrow> bool" where
  "depsCovered seen [] = True"
| "depsCovered seen (s # ss) = (set (deps s) \<subseteq> seen \<and> depsCovered (insert (ident s) seen) ss)"

text \<open>
  Where a result comes from. \<open>m\<close> is the status map; the last two origins (cancellation, the
  deadlock branch) only exist once the loop has stopped (\<open>fin\<close>). The deadlock branch is
  only reached when the list is not in dependency order or a step was lost.
\<close>

definition explained ::
  "world \<Rightarrow> WorkflowStep list \<Rightarrow> (string \<rightharpoonup> WorkflowRunStatus) \<Rightarrow> bool \<Rightarrow> WorkflowRunResult \<Rightarrow> bool" where
  "explained w steps m fin r =
     (\<exists>s\<in>set steps.
        (\<not> enabled s \<and> r = mkResult s S_skipped 0 None)
      \<or> (enabled s \<and> r = mkResult s S_skipped 0 (Some ''Dependency failed'')
          \<and> (\<exists>d\<in>set (deps s). m d = Some S_error \<or> m d = Some S_skipped))
      \<or> (enabled s \<and> bodyResult w s = Some r \<and> (\<forall>d\<in>set (deps s). m d = Some S_success))
      \<or> (fin \<and> enabled s \<and> r = mkResult s S_skipped 0 (Some ''Cancelled'')
          \<and> (\<exists>n. shouldCancel w n))
      \<or> (fin \<and> enabled s \<and> r = mkResult s S_error 0 (Some ''Deadlock: dependencies never met'')
          \<and> (\<not> depsCovered {} steps \<or> \<not> readableErrors steps)))"

text \<open>A terminal status is never overwritten.\<close>

definition stable :: "(string \<rightharpoonup> WorkflowRunStatus) \<Rightarrow> (string \<rightharpoonup> WorkflowRunStatus) \<Rightarrow> bool" where
  "stable m m' = (\<forall>i x. m i = Some x \<and> terminal x \<longrightarrow> m' i = Some x)"

text \<open>
  The loop invariant: pending steps keep the order of the input and have status
  \<open>pending\<close>; a promise in flight belongs to a started step whose dependencies all
  succeeded; every result agrees with the status map and has an origin; every step is
  pending, in flight, has a result, or is lost.
\<close>

definition Inv :: "world \<Rightarrow> WorkflowStep list \<Rightarrow> bool \<Rightarrow> sched \<Rightarrow> bool" where
  "Inv w steps fin st \<longleftrightarrow>
     distinct (map ident steps) \<and>
     (\<exists>P. pendingSteps st = filter P steps) \<and>
     (\<forall>s\<in>set (pendingSteps st). enabled s \<and> statusById st (ident s) = Some S_pending) \<and>
     distinct (map fst (runningPromises st)) \<and>
     (\<forall>k s out. (k, InFlight s out) \<in> set (runningPromises st) \<longrightarrow>
        k = ident s \<and> s \<in> set steps \<and> run s = Async out \<and> enabled s \<and>
        statusById st k = Some S_running \<and>
        (\<forall>d\<in>set (deps s). statusById st d = Some S_success)) \<and>
     (\<forall>k. (k, Settled) \<in> set (runningPromises st) \<longrightarrow> k \<in> stepId ` set (results st)) \<and>
     (\<forall>k. (k, Failed) \<in> set (runningPromises st) \<longrightarrow> statusById st k = Some S_running) \<and>
     distinct (map stepId (results st)) \<and>
     (\<forall>r\<in>set (results st).
        statusById st (stepId r) = Some (status r) \<and> terminal (status r) \<and>
        explained w steps (statusById st) fin r) \<and>
     (\<forall>s\<in>set steps.
        s \<in> set (pendingSteps st) \<or>
        (\<exists>out. (ident s, InFlight s out) \<in> set (runningPromises st)) \<or>
        ident s \<in> stepId ` set (results st) \<or>
        lost (statusById st) s) \<and>
     dom (statusById st) \<subseteq> ident ` set steps"

text \<open>Ready steps are distinct pending steps whose dependencies all succeeded.\<close>

definition readyOK :: "sched \<Rightarrow> WorkflowStep list \<Rightarrow> bool" where
  "readyOK st rd \<longleftrightarrow> distinct rd \<and>
     (\<forall>s\<in>set rd. s \<in> set (pendingSteps st) \<and> (\<forall>d\<in>set (deps s). statusById st d = Some S_success))"

text \<open>Bodies that settle during one wait: distinct steps, each in flight.\<close>

definition inFlightAll :: "sched \<Rightarrow> (WorkflowStep \<times> settlement) list \<Rightarrow> bool" where
  "inFlightAll st done \<longleftrightarrow> distinct (map (ident \<circ> fst) done) \<and>
     (\<forall>p\<in>set done. (ident (fst p), InFlight (fst p) (snd p)) \<in> set (runningPromises st))"

text \<open>
  What holds of the returned list, with the status map \<open>m\<close> at the time of return: no
  identifier twice, only identifiers of steps, and a result for every step that is not
  lost.
\<close>

definition Final ::
  "world \<Rightarrow> WorkflowStep list \<Rightarrow> (string \<rightharpoonup> WorkflowRunStatus) \<Rightarrow> WorkflowRunResult list \<Rightarrow> bool" where
  "Final w steps m rs \<longleftrightarrow>
     distinct (map stepId rs) \<and> stepId ` set rs \<subseteq> ident ` set steps \<and>
     (\<forall>s\<in>set steps. ident s \<in> stepId ` set rs \<or> lost m s) \<and>
     (\<forall>r\<in>set rs. m (stepId r) = Some (status r) \<and> terminal (status r) \<and> explained w steps m True r) \<and>
     dom m \<subseteq> ident ` set steps"

definition termIds :: "sched \<Rightarrow> string set" where
  "termIds st = {i. \<exists>x. statusById st i = Some x \<and> terminal x}"

text \<open>
  Assumptions under which a run returns a list: every wait of the scheduler
  ends (\<open>live\<close>: \<open>Promise.race\<close> sees one of the awaited bodies settle,
  \<open>Promise.allSettled\<close> sees all of them settle), the bodies of enabled steps are
  asynchronous (\<open>asyncBodies\<close>), and none rejects with \<open>null\<close> or \<open>undefined\<close>
  (\<open>readableErrors\<close>).
\<close>

definition live :: "world \<Rightarrow> bool" where
  "live w \<longleftrightarrow>
     (\<forall>n ids. ids \<noteq> [] \<longrightarrow>
        (if shouldCancel w n then set ids \<subseteq> set (settled w n ids)
         else \<exists>i\<in>set ids. i \<in> set (settled w n ids)))"

definition asyncBodies :: "WorkflowStep list \<Rightarrow> bool" where
  "asyncBodies steps \<longleftrightarrow> (\<forall>s\<in>set steps. enabled s \<longrightarrow> (\<exists>out. run s = Async out))"

definition noStale :: "sched \<Rightarrow> bool" where
  "noStale st \<longleftrightarrow> (\<forall>kp\<in>set (runningPromises st). \<not> isSettled (snd kp))"

text \<open>\<open>(b, a) \<in> dependsRel steps\<close>: step \<open>b\<close> lists \<open>a\<close> in its \<open>dependsOn\<close>.\<close>

definition dependsRel :: "WorkflowStep list \<Rightarrow> (string \<times> string) set" where
  "dependsRel steps = {(ident s, d) | s d. s \<in> set steps \<and> d \<in> set (deps s)}"

text \<open>
  Example inputs: a world without cancellation in which every body settles during the
  first wait after its start, and the pipeline of four steps with a failing download.
\<close>

definition promptWorld :: world where
  "promptWorld = \<lparr>shouldCancel = (\<lambda>_. False), settled = (\<lambda>_ ids. ids), elapsed = (\<lambda>_. 0)\<rparr>"

definition mkStep :: "string \<Rightarrow> run_behaviour \<Rightarrow> string list \<Rightarrow> WorkflowStep" where
  "mkStep i r ds = \<lparr>ident = i, label = i, enabled = True, run = r, dependsOn = Some ds, sessionId = None\<rparr>"

definition pipelineExample :: "WorkflowStep list" where
  "pipelineExample =
     [mkStep ''open'' (Async Fulfilled) [],
      mkStep ''downloadA'' (Async Fulfilled) [''open''],
      mkStep ''downloadB'' (Async (Rejected (Some ''boom''))) [''open''],
      mkStep ''merge'' (Async Fulfilled) [''downloadA'', ''downloadB'']]"

text \<open>
  Two independent steps, the second rejecting with \<open>undefined\<close>; and a chain \<open>C\<close> on \<open>B\<close> on
  \<open>A\<close> with a failing \<open>A\<close>, listed against the direction of the dependencies.
\<close>

definition lostStepExample :: "WorkflowStep list" where
  "lostStepExample =
     [mkStep ''fetch'' (Async Fulfilled) [],
      mkStep ''report'' (Async RejectedNullish) []]"

definition lateDependencyExample :: "WorkflowStep list" where
  "lateDependencyExample =
     [mkStep ''C'' (Async Fulfilled) [''B''],
      mkStep ''B'' (Async Fulfilled) [''A''],
      mkStep ''A'' (Async (Rejected (Some ''boom''))) []]"

section \<open>Task registry (electron/automation/taskRegistry.ts)\<close>

text \<open>
  The module keeps one \<open>Map<string, ActiveTask>\<close>. The map is an association list in
  insertion order (\<open>set\<close> is \<open>AList.update\<close>, \<open>delete\<close> is \<open>AList.delete\<close>, \<open>get\<close> is
  \<open>map_of\<close>). An \<open>AbortController\<close> is an address in the store \<open>controllers\<close>, which holds
  the \<open>aborted\<close> flag of each controller ever created; the \<open>AbortSignal\<close> handed to the
  caller is that address, so \<open>signal.aborted\<close> reads the store. \<open>Date.now()\<close> is the
  argument \<open>now\<close>; the log calls are left out. \<open>taskType\<close> is the source's field \<open>type\<close>.
\<close>

datatype TaskType = T_prompts | T_download | T_pipeline

record ActiveTask =
  taskType :: TaskType
  controller :: nat
  startTime :: nat

record taskState =
  registry :: "(string \<times> ActiveTask) list"
  controllers :: "bool list"

definition emptyTasks :: taskState where
  "emptyTasks = \<lparr>registry = [], controllers = []\<rparr>"

definition abort :: "nat \<Rightarrow> taskState \<Rightarrow> taskState" where
  "abort c st = st\<lparr>controllers := (controllers st)[c := True]\<rparr>"

definition stopTask :: "string \<Rightarrow> taskState \<Rightarrow> taskState" where
  "stopTask sid st =
     (case map_of (registry st) sid of
        None \<Rightarrow> st
      | Some task \<Rightarrow>
          (let st1 = abort (controller task) st
           in st1\<lparr>registry := AList.delete sid (registry st1)\<rparr>))"

definition startTask :: "string \<Rightarrow> TaskType \<Rightarrow> nat \<Rightarrow> taskState \<Rightarrow> nat \<times> taskState" where
  "startTask sid ty now st =
     (let st1 = (if map_of (registry st) sid \<noteq> None then stopTask sid st else st);
          c = length (controllers st1);
          st2 = st1\<lparr>controllers := controllers st1 @ [False]\<rparr>;
          st3 = st2\<lparr>registry :=
                  AList.update sid \<lparr>taskType = ty, controller = c, startTime = now\<rparr>
                    (registry st2)\<rparr>
      in (c, st3))"

definition cancelAllTasks :: "taskState \<Rightarrow> taskState" where
  "cancelAllTasks st =
     fold (\<lambda>entry s. (abort (controller (snd entry)) s)
                        \<lparr>registry := AList.delete (fst entry) (registry (abort (controller (snd entry)) s))\<rparr>)
       (registry st) st"

definition isTaskRunning :: "string \<Rightarrow> taskState \<Rightarrow> bool" where
  "isTaskRunning sid st = (map_of (registry st) sid \<noteq> None)"

definition getRunningTaskType :: "string \<Rightarrow> taskState \<Rightarrow> TaskType option" where
  "getRunningTaskType sid st = map_option taskType (map_of (registry st) sid)"

definition aborted :: "taskState \<Rightarrow> nat \<Rightarrow> bool" where
  "aborted st c = (controllers st ! c)"

text \<open>
  Well-formed registry states: at most one entry per entity, and every registered
  controller has been created.
\<close>

definition wfTasks :: "taskState \<Rightarrow> bool" where
  "wfTasks st \<longleftrightarrow>
     distinct (map fst (registry st)) \<and>
     (\<forall>e\<in>set (registry st). controller (snd e) < length (controllers st))"

section \<open>Watchdog (electron/automation/watchdog.ts)\<close>

text \<open>
  \<open>watchers\<close> is the module's \<open>Map<string, WatchdogEntry>\<close>, times are \<open>Date.now()\<close>
  values in milliseconds. Of an entry the model keeps \<open>lastHeartbeat\<close> and \<open>timeoutMs\<close>;
  the timer handle only decides whether the timer's callback still runs, which the events
  below say, and a call of \<open>onTimeout\<close> is recorded in the log \<open>fired\<close> with the time of
  the check that made it.

  The timer's callback is an async function. \<open>setInterval\<close> calls it every
  \<open>WATCHDOG_CHECK_INTERVAL_MS\<close> whether or not an earlier call has finished, and each call
  runs in two pieces: up to \<open>await current.onTimeout()\<close> (\<open>intervalCheck\<close>), and the
  \<open>finally\<close> block once \<open>onTimeout\<close> has settled (\<open>intervalFinally\<close>). Whatever happens
  between the two pieces is another event.
\<close>

record WatchdogEntry =
  lastHeartbeat :: int
  timeoutMs :: int

record watchdogState =
  watchers :: "(string \<times> WatchdogEntry) list"
  fired :: "(string \<times> int) list"

definition WATCHDOG_CHECK_INTERVAL_MS :: int where
  "WATCHDOG_CHECK_INTERVAL_MS = 5000"

definition stopWatchdog :: "string \<Rightarrow> watchdogState \<Rightarrow> watchdogState" where
  "stopWatchdog runId st =
     (case map_of (watchers st) runId of
        None \<Rightarrow> st
      | Some entry \<Rightarrow> st\<lparr>watchers := AList.delete runId (watchers st)\<rparr>)"

definition startWatchdog :: "string \<Rightarrow> int \<Rightarrow> int \<Rightarrow> watchdogState \<Rightarrow> watchdogState" where
  "startWatchdog runId timeout now st =
     (let st1 = stopWatchdog runId st
      in st1\<lparr>watchers :=
               AList.update runId \<lparr>lastHeartbeat = now, timeoutMs = timeout\<rparr> (watchers st1)\<rparr>)"

definition heartbeat :: "string \<Rightarrow> int \<Rightarrow> watchdogState \<Rightarrow> watchdogState" where
  "heartbeat runId now st =
     (case map_of (watchers st) runId of
        None \<Rightarrow> st
      | Some entry \<Rightarrow>
          st\<lparr>watchers := AList.update runId (entry\<lparr>lastHeartbeat := now\<rparr>) (watchers st)\<rparr>)"

text \<open>Does the check at time \<open>now\<close> call \<open>onTimeout\<close>?\<close>

definition timedOut :: "string \<Rightarrow> int \<Rightarrow> watchdogState \<Rightarrow> bool" where
  "timedOut runId now st =
     (case map_of (watchers st) runId of
        None \<Rightarrow> False
      | Some current \<Rightarrow> now - lastHeartbeat current > timeoutMs current)"

definition intervalCheck :: "string \<Rightarrow> int \<Rightarrow> watchdogState \<Rightarrow> watchdogState" where
  "intervalCheck runId now st =
     (if timedOut runId now st then st\<lparr>fired := fired st @ [(runId, now)]\<rparr> else st)"

definition intervalFinally :: "string \<Rightarrow> int \<Rightarrow> watchdogState \<Rightarrow> watchdogState" where
  "intervalFinally runId now st =
     (case map_of (watchers st) runId of
        None \<Rightarrow> st
      | Some active \<Rightarrow>
          st\<lparr>watchers := AList.update runId (active\<lparr>lastHeartbeat := now\<rparr>) (watchers st)\<rparr>)"

text \<open>
  A callback whose \<open>onTimeout\<close> settles (at time \<open>settledAt\<close>) before anything else runs.
\<close>

definition intervalCallback :: "string \<Rightarrow> int \<Rightarrow> int \<Rightarrow> watchdogState \<Rightarrow> watchdogState" where
  "intervalCallback runId now settledAt st =
     (if timedOut runId now st then intervalFinally runId settledAt (intervalCheck runId now st)
      else st)"

text \<open>
  What the event loop can run, in the order it runs it: a timer tick (the first piece of a
  callback), the \<open>finally\<close> block of a callback whose \<open>onTimeout\<close> has settled, and the
  three calls of the module's interface.
\<close>

datatype watchdogEvent =
    Tick string int
  | TimeoutSettled string int
  | Heartbeat string int
  | Arm string int int
  | Disarm string

fun watchdogStep :: "watchdogEvent \<Rightarrow> watchdogState \<Rightarrow> watchdogState" where
  "watchdogStep (Tick runId now) st = intervalCheck runId now st"
| "watchdogStep (TimeoutSettled runId now) st = intervalFinally runId now st"
| "watchdogStep (Heartbeat runId now) st = heartbeat runId now st"
| "watchdogStep (Arm runId timeout now) st = startWatchdog runId timeout now st"
| "watchdogStep (Disarm runId) st = stopWatchdog runId st"

definition watchdogRun :: "watchdogEvent list \<Rightarrow> watchdogState \<Rightarrow> watchdogState" where
  "watchdogRun events st = fold watchdogStep events st"

definition noWatchers :: watchdogState where
  "noWatchers = \<lparr>watchers = [], fired = []\<rparr>"

section \<open>Chrome session manager (electron/chrome/manager.ts, chromeLauncher.ts)\<close>

text \<open>
  Everything outside the two functions is environment, given as a value (\<open>chromeWorld\<close>):
  \<^item> \<open>connects site ws\<close>: the outcome of \<open>puppeteer.connect\<close> to the endpoint \<open>ws\<close> at one of
    the three call sites, \<open>None\<close> for a connected browser, \<open>Some m\<close> for a rejection with
    message \<open>m\<close>;
  \<^item> \<open>resolveTarget\<close>, \<open>cloneVerified\<close>, \<open>seedFails\<close>: \<open>resolveProfileLaunchTarget\<close>
    (\<open>Inl\<close> a thrown message, \<open>Inr\<close> the \<open>userDataDir\<close>), \<open>verifyProfileClone(...).ok\<close>, and
    the message \<open>ensureCloneSeededFromProfile\<close> throws, if any;
  \<^item> \<open>chromePath\<close>, \<open>mkdirFails\<close>: \<open>resolveChromeExecutablePath\<close> and \<open>fs.mkdirSync\<close>;
  \<^item> \<open>versionUrl i\<close>: the field \<open>webSocketDebuggerUrl\<close> of the answer to the \<open>i\<close>-th request
    to \<open>/json/version\<close> on the port, \<open>None\<close> when the request fails, times out, is not a
    200 or does not parse;
  \<^item> \<open>exitedAt i\<close>: \<open>hasExited\<close> at the \<open>i\<close>-th turn of the polling loop, and \<open>pollTurns\<close>:
    how many turns fit into the 30 seconds.
  An error is its message. A connected \<open>Browser\<close> is the endpoint it is connected to. The
  state is the map \<open>activeSessions\<close> and the log of the calls of \<open>spawn\<close> (port and
  profile directory of each). Of a \<open>ChromeLaunchResult\<close> only \<open>wsEndpoint\<close> is kept, the
  other fields repeat the options.
\<close>

datatype connectSite = Probe | AfterLaunch | Attach

datatype Browser = Browser string

record chromeWorld =
  connects :: "connectSite \<Rightarrow> string \<Rightarrow> string option"
  resolveTarget :: "string + string"
  cloneVerified :: bool
  seedFails :: "string option"
  chromePath :: "string + string"
  mkdirFails :: "string option"
  versionUrl :: "nat \<Rightarrow> string option"
  exitedAt :: "nat \<Rightarrow> bool"
  pollTurns :: nat

record SessionEntry =
  port :: nat
  wsEndpoint :: string

record chromeState =
  activeSessions :: "(string \<times> SessionEntry) list"
  spawned :: "(nat \<times> string) list"

text \<open>Decimal digits of a number, for the port in error messages.\<close>

definition digitChar :: "nat \<Rightarrow> char" where
  "digitChar d = char_of (48 + d)"

function decimal :: "nat \<Rightarrow> string" where
  "decimal n = (if n < 10 then [digitChar n] else decimal (n div 10) @ [digitChar (n mod 10)])"
  by pat_completeness auto
termination
  by (relation "measure id") auto

text \<open>\<open>String.prototype.startsWith\<close> and \<open>split\<close> with a string separator; \<open>at\<close> is indexing,
  \<open>None\<close> for \<open>undefined\<close>.\<close>

definition startsWith :: "string \<Rightarrow> string \<Rightarrow> bool" where
  "startsWith p s = (take (length p) s = p)"

fun findSep :: "string \<Rightarrow> string \<Rightarrow> nat option" where
  "findSep sep [] = None"
| "findSep sep (c # cs) =
     (if startsWith sep (c # cs) then Some 0 else map_option Suc (findSep sep cs))"

function jsSplit :: "string \<Rightarrow> string \<Rightarrow> string list" where
  "jsSplit sep s =
     (if sep = [] then map (\<lambda>c. [c]) s
      else case findSep sep s of
             None \<Rightarrow> [s]
           | Some i \<Rightarrow> take i s # jsSplit sep (drop (i + length sep) s))"
  by pat_completeness auto
termination
proof (relation "measure (\<lambda>(sep, s). length s)")
  show "wf (measure (\<lambda>(sep, s). length s))" by simp
next
  fix sep s :: string and i
  assume "sep \<noteq> []" and "findSep sep s = Some i"
  then have "s \<noteq> []" by (cases s) auto
  with \<open>sep \<noteq> []\<close> show "((sep, drop (i + length sep) s), (sep, s)) \<in> measure (\<lambda>(sep, s). length s)"
    by (cases sep) auto
qed

definition at :: "'a list \<Rightarrow> nat \<Rightarrow> 'a option" where
  "at xs i = (if i < length xs then Some (xs ! i) else None)"

text \<open>The marker by which the launcher reports an endpoint that already answers.\<close>

definition ALREADY_RUNNING :: string where
  "ALREADY_RUNNING = ''ALREADY_RUNNING:''"

text \<open>\<open>checkCdpPort\<close>: \<open>resolve(json.webSocketDebuggerUrl || null)\<close>, so never the empty string.\<close>

definition checkCdpPort :: "chromeWorld \<Rightarrow> nat \<Rightarrow> string option" where
  "checkCdpPort w i =
     (case versionUrl w i of
        None \<Rightarrow> None
      | Some url \<Rightarrow> if url = [] then None else Some url)"

text \<open>
  The polling loop of \<open>launchChromeWithCdp\<close>; \<open>i\<close> counts the turns taken, request \<open>0\<close> is
  the check before the spawn.
\<close>

function pollCdp :: "chromeWorld \<Rightarrow> nat \<Rightarrow> nat \<Rightarrow> string + string" where
  "pollCdp w portNo i =
     (if i < pollTurns w then
        (if exitedAt w i
         then Inl ''Chrome process crashed immediately after launch. Check paths and permissions.''
         else case checkCdpPort w (Suc i) of
                Some wsUrl \<Rightarrow> Inr wsUrl
              | None \<Rightarrow> pollCdp w portNo (Suc i))
      else Inl (''Chrome timed out launching on port '' @ decimal portNo @ '' after 30s''))"
  by pat_completeness auto
termination
  by (relation "measure (\<lambda>(w, portNo, i). pollTurns w - i)") auto

definition launchChromeWithCdp ::
  "chromeWorld \<Rightarrow> nat \<Rightarrow> string \<Rightarrow> chromeState \<Rightarrow> (string + string) \<times> chromeState" where
  "launchChromeWithCdp w portNo profileDir st =
     (case chromePath w of
        Inl e \<Rightarrow> (Inl e, st)
      | Inr path \<Rightarrow>
          (case mkdirFails w of
             Some e \<Rightarrow> (Inl e, st)
           | None \<Rightarrow>
               (case checkCdpPort w 0 of
                  Some existingWs \<Rightarrow> (Inl (ALREADY_RUNNING @ existingWs), st)
                | None \<Rightarrow>
                    (let st1 = st\<lparr>spawned := spawned st @ [(portNo, profileDir)]\<rparr>
                     in (pollCdp w portNo 0, st1)))))"

definition connect :: "chromeWorld \<Rightarrow> connectSite \<Rightarrow> string \<Rightarrow> string + Browser" where
  "connect w site ws = (case connects w site ws of None \<Rightarrow> Inr (Browser ws) | Some e \<Rightarrow> Inl e)"

definition setSession :: "string \<Rightarrow> nat \<Rightarrow> string \<Rightarrow> chromeState \<Rightarrow> chromeState" where
  "setSession sid portNo ws st =
     st\<lparr>activeSessions := AList.update sid \<lparr>port = portNo, wsEndpoint = ws\<rparr> (activeSessions st)\<rparr>"

text \<open>The \<open>catch\<close> block of \<open>getOrLaunchChromeForProfile\<close>, for an error with message \<open>msg\<close>.\<close>

definition onLaunchError ::
  "chromeWorld \<Rightarrow> nat \<Rightarrow> string \<Rightarrow> string \<Rightarrow> chromeState \<Rightarrow> (string + Browser) \<times> chromeState" where
  "onLaunchError w portNo sid msg st =
     (if msg \<noteq> [] \<and> startsWith ALREADY_RUNNING msg then
        (case at (jsSplit ALREADY_RUNNING msg) 1 of
           None \<Rightarrow> (Inl ''browserWSEndpoint is undefined'', st)
         | Some wsUrl \<Rightarrow>
             (let st1 = setSession sid portNo wsUrl st
              in (connect w Attach wsUrl, st1)))
      else (Inl msg, st))"

text \<open>Steps 2 and 3 of \<open>getOrLaunchChromeForProfile\<close>, after the registry has been checked.\<close>

definition relaunch ::
  "chromeWorld \<Rightarrow> nat \<Rightarrow> string \<Rightarrow> chromeState \<Rightarrow> (string + Browser) \<times> chromeState" where
  "relaunch w portNo sid st =
     (case resolveTarget w of
        Inl e \<Rightarrow> (Inl e, st)
      | Inr userDataDir \<Rightarrow>
          (case (if cloneVerified w then None else seedFails w) of
             Some e \<Rightarrow> (Inl e, st)
           | None \<Rightarrow>
               (case launchChromeWithCdp w portNo userDataDir st of
                  (Inl msg, st1) \<Rightarrow> onLaunchError w portNo sid msg st1
                | (Inr ws, st1) \<Rightarrow>
                    (let st2 = setSession sid portNo ws st1
                     in case connect w AfterLaunch ws of
                          Inr browser \<Rightarrow> (Inr browser, st2)
                        | Inl msg \<Rightarrow> onLaunchError w portNo sid msg st2))))"

definition getOrLaunchChromeForProfile ::
  "chromeWorld \<Rightarrow> nat \<Rightarrow> string \<Rightarrow> chromeState \<Rightarrow> (string + Browser) \<times> chromeState" where
  "getOrLaunchChromeForProfile w portNo sid st =
     (if sid = [] then (Inl ''sessionId is required for Chrome management'', st)
      else case map_of (activeSessions st) sid of
             None \<Rightarrow> relaunch w portNo sid st
           | Some active \<Rightarrow>
               (case connect w Probe (wsEndpoint active) of
                  Inr browser \<Rightarrow> (Inr browser, st)
                | Inl e \<Rightarrow>
                    relaunch w portNo sid
                      (st\<lparr>activeSessions := AList.delete sid (activeSessions st)\<rparr>)))"

text \<open>The launcher gets as far as its check of the port: nothing before it throws.\<close>

definition prepared :: "chromeWorld \<Rightarrow> bool" where
  "prepared w \<longleftrightarrow>
     (\<exists>dir. resolveTarget w = Inr dir) \<and> (cloneVerified w \<or> seedFails w = None) \<and>
     (\<exists>path. chromePath w = Inr path) \<and> mkdirFails w = None"

text \<open>
  Example environments: Chrome is installed and the profile prepared; in \<open>answeringWorld\<close>
  the port already answers with the endpoint \<open>ws://127.0.0.1:9222/devtools/browser/new\<close>
  and the endpoint recorded earlier no longer accepts connections; in \<open>silentWorld\<close> the
  port answers only after the spawn.
\<close>

definition answeringWorld :: chromeWorld where
  "answeringWorld =
     \<lparr>connects = (\<lambda>site ws. if ws = ''ws://127.0.0.1:9222/devtools/browser/new'' then None
                              else Some ''connect ECONNREFUSED''),
      resolveTarget = Inr ''/clones/default_s1'',
      cloneVerified = True,
      seedFails = None,
      chromePath = Inr ''/usr/bin/google-chrome'',
      mkdirFails = None,
      versionUrl = (\<lambda>i. Some ''ws://127.0.0.1:9222/devtools/browser/new''),
      exitedAt = (\<lambda>i. False),
      pollTurns = 30\<rparr>"

definition silentWorld :: chromeWorld where
  "silentWorld =
     \<lparr>connects = (\<lambda>site ws. if ws = ''ws://127.0.0.1:9222/devtools/browser/new'' then None
                              else Some ''connect ECONNREFUSED''),
      resolveTarget = Inr ''/clones/default_s1'',
      cloneVerified = True,
      seedFails = None,
      chromePath = Inr ''/usr/bin/google-chrome'',
      mkdirFails = None,
      versionUrl = (\<lambda>i. if i < 2 then None else Some ''ws://127.0.0.1:9222/devtools/browser/new''),
      exitedAt = (\<lambda>i. False),
      pollTurns = 30\<rparr>"

definition staleState :: chromeState where
  "staleState =
     \<lparr>activeSessions = [(''s1'', \<lparr>port = 9222, wsEndpoint = ''ws://127.0.0.1:9222/devtools/browser/old''\<rparr>)],
      spawned = []\<rparr>"

definition liveState :: chromeState where
  "liveState =
     \<lparr>activeSessions = [(''s1'', \<lparr>port = 9222, wsEndpoint = ''ws://127.0.0.1:9222/devtools/browser/new''\<rparr>)],
      spawned = [(9222, ''/clones/default_s1'')]\<rparr>"

section \<open>Download loop (core/download/downloadFlow.ts)\<close>

text \<open>
  The page, the file system and the clock are environment (\<open>downloadWorld\<close>), indexed by the
  turn \<open>i\<close> of the \<open>while\<close> loop in which they are consulted:
  \<^item> \<open>isCancelled w i\<close>: what \<open>isCancelled?.()\<close> returns at the top of turn \<open>i\<close>;
  \<^item> \<open>cardReadyFails\<close>, \<open>clickFails\<close>, \<open>swipeFails\<close>, \<open>recoverySwipeFails\<close>: the message thrown
    by \<open>waitUntilCardReady\<close>, \<open>clickDownload\<close>, the \<open>performSafeSwipe\<close> of step 7 and the one
    in the \<open>catch\<close> block, \<open>None\<close> when the call succeeds;
  \<^item> \<open>startedFile\<close>, \<open>savedFile\<close>: \<open>waitForDownloadStart\<close> and \<open>waitUntilFileSaved\<close>, \<open>Inl\<close> the
    message of the timeout error, \<open>Inr\<close> the name of the directory entry they found; what
    they return is \<open>path.join(downloadDir, name)\<close>;
  \<^item> \<open>mkdirRejects\<close>, \<open>openCardFails\<close>, \<open>initialFiles\<close>: \<open>fs.mkdir\<close>, \<open>openCardAtIndex\<close> for an
    index, and \<open>fs.readdir(downloadDir).catch(() => [])\<close>;
  \<^item> \<open>pathJoin\<close>, \<open>pathBasename\<close>: \<open>path.join\<close> and \<open>path.basename\<close> of the platform the
    program runs on.
  Counts are integers. Besides the variables of the function the state records what the loop did:
  the states passed to \<open>notify\<close>, the number of calls of \<open>clickDownload\<close>, and the indices
  \<open>openCardAtIndex\<close> was called with. The loop may run for ever (every turn fails and every
  recovery swipe succeeds), so it takes fuel, one unit per turn; \<open>None\<close> is a call that has
  not returned within the fuel.
\<close>

datatype DownloadState =
    Idle | OpenCard | WaitCardReady | StartDownload | WaitDownloadStart | WaitFileSaved
  | PostDownloadDelay | SwipeNext | Done

record DownloadLoopResult =
  completed :: int
  savedFiles :: "string list"
  lastState :: DownloadState

record downloadOptions =
  maxDownloads :: int
  downloadDir :: string
  maxSeenFiles :: "nat option"
  skipCount :: "int option"

record downloadWorld =
  isCancelled :: "nat \<Rightarrow> bool"
  cardReadyFails :: "nat \<Rightarrow> string option"
  clickFails :: "nat \<Rightarrow> string option"
  startedFile :: "nat \<Rightarrow> string + string"
  savedFile :: "nat \<Rightarrow> string + string"
  swipeFails :: "nat \<Rightarrow> string option"
  recoverySwipeFails :: "nat \<Rightarrow> string option"
  mkdirRejects :: "string option"
  openCardFails :: "int \<Rightarrow> string option"
  initialFiles :: "string list"
  pathJoin :: "string \<Rightarrow> string \<Rightarrow> string"
  pathBasename :: "string \<Rightarrow> string"

record loopState =
  state :: DownloadState
  saved :: "string list"
  seenNames :: "string list"
  notified :: "DownloadState list"
  clicks :: nat
  opened :: "int list"

datatype loopControl = Continue | Break

definition notify :: "DownloadState \<Rightarrow> loopState \<Rightarrow> loopState" where
  "notify next st = st\<lparr>state := next, notified := notified st @ [next]\<rparr>"

text \<open>\<open>Set.prototype.add\<close> on a set kept in insertion order.\<close>

definition seenAdd :: "string \<Rightarrow> loopState \<Rightarrow> loopState" where
  "seenAdd name st =
     (if name \<in> set (seenNames st) then st else st\<lparr>seenNames := seenNames st @ [name]\<rparr>)"

definition skipOf :: "downloadOptions \<Rightarrow> int" where
  "skipOf opts = (case skipCount opts of None \<Rightarrow> 0 | Some k \<Rightarrow> k)"

definition MAX_SEEN :: "downloadOptions \<Rightarrow> nat" where
  "MAX_SEEN opts = (case maxSeenFiles opts of None \<Rightarrow> 1000 | Some n \<Rightarrow> n)"

definition videosToDownload :: "downloadOptions \<Rightarrow> int" where
  "videosToDownload opts = max 0 (maxDownloads opts - skipOf opts)"

text \<open>\<open>initialFiles.slice(-MAX_SEEN)\<close>; \<open>slice(-0)\<close> is the whole array.\<close>

definition sliceLast :: "nat \<Rightarrow> 'a list \<Rightarrow> 'a list" where
  "sliceLast n xs = (if n = 0 then xs else drop (length xs - n) xs)"

definition trimSeen :: "downloadOptions \<Rightarrow> loopState \<Rightarrow> loopState" where
  "trimSeen opts st =
     (if length (seenNames st) > MAX_SEEN opts
      then st\<lparr>seenNames := drop (length (seenNames st) - MAX_SEEN opts) (seenNames st)\<rparr>
      else st)"

text \<open>The \<open>catch\<close> block of a turn.\<close>

definition recover :: "downloadWorld \<Rightarrow> nat \<Rightarrow> loopState \<Rightarrow> loopControl \<times> loopState" where
  "recover w i st =
     (let st1 = notify SwipeNext st
      in case recoverySwipeFails w i of
           Some e \<Rightarrow> (Break, st1)
         | None \<Rightarrow> (Continue, st1))"

text \<open>The \<open>try\<close> block of a turn, steps 2 to 7.\<close>

definition turn ::
  "downloadWorld \<Rightarrow> downloadOptions \<Rightarrow> nat \<Rightarrow> loopState \<Rightarrow> loopControl \<times> loopState" where
  "turn w opts i st =
     (let st1 = notify WaitCardReady st
      in case cardReadyFails w i of
           Some e \<Rightarrow> recover w i st1
         | None \<Rightarrow>
             (let st2 = notify StartDownload st1;
                  st3 = st2\<lparr>clicks := Suc (clicks st2)\<rparr>
              in case clickFails w i of
                   Some e \<Rightarrow> recover w i st3
                 | None \<Rightarrow>
                     (let st4 = notify WaitDownloadStart st3
                      in case startedFile w i of
                           Inl e \<Rightarrow> recover w i st4
                         | Inr startedName \<Rightarrow>
                             (let startedPath = pathJoin w (downloadDir opts) startedName;
                                  st5 = seenAdd (pathBasename w startedPath) st4;
                                  st6 = notify WaitFileSaved st5
                              in case savedFile w i of
                                   Inl e \<Rightarrow> recover w i st6
                                 | Inr savedName \<Rightarrow>
                                     (let savedPath = pathJoin w (downloadDir opts) savedName;
                                          st7 = seenAdd (pathBasename w savedPath) st6;
                                          st8 = st7\<lparr>saved := saved st7 @ [savedPath]\<rparr>;
                                          st9 = notify PostDownloadDelay st8
                                      in if int (length (saved st9)) \<ge> videosToDownload opts
                                         then (Break, notify Done st9)
                                         else (let st10 = notify SwipeNext st9
                                               in case swipeFails w i of
                                                    Some e \<Rightarrow> recover w i st10
                                                  | None \<Rightarrow> (Continue, st10)))))))"

text \<open>The \<open>while\<close> loop; \<open>i\<close> counts the turns taken.\<close>

fun downloadLoop ::
  "downloadWorld \<Rightarrow> downloadOptions \<Rightarrow> nat \<Rightarrow> nat \<Rightarrow> loopState \<Rightarrow> loopState option" where
  "downloadLoop w opts fuel i st =
     (if \<not> int (length (saved st)) < videosToDownload opts then Some st
      else case fuel of
             0 \<Rightarrow> None
           | Suc fuel' \<Rightarrow>
               (if isCancelled w i then Some st
                else case turn w opts i (trimSeen opts st) of
                       (Break, st1) \<Rightarrow> Some st1
                     | (Continue, st1) \<Rightarrow> downloadLoop w opts fuel' (Suc i) st1))"

definition finishLoop :: "downloadOptions \<Rightarrow> loopState \<Rightarrow> loopState" where
  "finishLoop opts st =
     (if int (length (saved st)) \<ge> videosToDownload opts then st\<lparr>state := Done\<rparr> else st)"

definition resultOf :: "loopState \<Rightarrow> DownloadLoopResult" where
  "resultOf st = \<lparr>completed = int (length (saved st)), savedFiles = saved st, lastState = state st\<rparr>"

definition idleState :: loopState where
  "idleState = \<lparr>state = Idle, saved = [], seenNames = [], notified = [], clicks = 0, opened = []\<rparr>"

text \<open>The whole function, with the final state of its variables and what it did.\<close>

definition runDownloadLoopState ::
  "downloadWorld \<Rightarrow> downloadOptions \<Rightarrow> nat \<Rightarrow> (string + loopState) option" where
  "runDownloadLoopState w opts fuel =
     (case mkdirRejects w of
        Some e \<Rightarrow> Some (Inl e)
      | None \<Rightarrow>
          (let st1 = notify OpenCard idleState;
               st2 = st1\<lparr>opened := opened st1 @ [skipOf opts]\<rparr>
           in case openCardFails w (skipOf opts) of
                Some e \<Rightarrow> Some (Inl e)
              | None \<Rightarrow>
                  (let st3 = fold seenAdd (sliceLast (MAX_SEEN opts) (initialFiles w)) st2
                   in case downloadLoop w opts fuel 0 st3 of
                        None \<Rightarrow> None
                      | Some st4 \<Rightarrow> Some (Inr (finishLoop opts st4)))))"

definition runDownloadLoop ::
  "downloadWorld \<Rightarrow> downloadOptions \<Rightarrow> nat \<Rightarrow> (string + DownloadLoopResult) option" where
  "runDownloadLoop w opts fuel = map_option (map_sum id resultOf) (runDownloadLoopState w opts fuel)"

text \<open>Every call of a turn succeeds, and so do the preliminaries.\<close>

definition allSucceed :: "downloadWorld \<Rightarrow> bool" where
  "allSucceed w \<longleftrightarrow>
     (\<forall>i. cardReadyFails w i = None \<and> clickFails w i = None \<and> swipeFails w i = None \<and>
          (\<exists>n. startedFile w i = Inr n) \<and> (\<exists>n. savedFile w i = Inr n))"

definition savedName :: "downloadWorld \<Rightarrow> nat \<Rightarrow> string" where
  "savedName w i = (case savedFile w i of Inr n \<Rightarrow> n | Inl e \<Rightarrow> [])"

text \<open>
  Example: target 5 with 2 files from an earlier run, on a platform whose separator is
  \<open>/\<close> (\<open>slashJoin\<close> and \<open>slashBasename\<close> are \<open>path.join\<close> and \<open>path.basename\<close> there for a
  directory without trailing separator and a plain file name). In \<open>feedWorld\<close> every
  download succeeds (file \<open>i\<close> is called \<open>v\<close> followed by \<open>i\<close> strokes); in \<open>stuckWorld\<close> the
  card of the first turn never becomes ready and the recovery swipe fails.
\<close>

definition slashJoin :: "string \<Rightarrow> string \<Rightarrow> string" where
  "slashJoin dir name = dir @ ''/'' @ name"

definition slashBasename :: "string \<Rightarrow> string" where
  "slashBasename p = rev (takeWhile (\<lambda>c. c \<noteq> CHR ''/'') (rev p))"

definition resumeOptions :: downloadOptions where
  "resumeOptions = \<lparr>maxDownloads = 5, downloadDir = ''/dl'', maxSeenFiles = None, skipCount = Some 2\<rparr>"

definition feedWorld :: downloadWorld where
  "feedWorld =
     \<lparr>isCancelled = (\<lambda>i. False),
      cardReadyFails = (\<lambda>i. None),
      clickFails = (\<lambda>i. None),
      startedFile = (\<lambda>i. Inr (''v'' @ replicate i CHR ''|'' @ ''.crdownload'')),
      savedFile = (\<lambda>i. Inr (''v'' @ replicate i CHR ''|'' @ ''.mp4'')),
      swipeFails = (\<lambda>i. None),
      recoverySwipeFails = (\<lambda>i. None),
      mkdirRejects = None,
      openCardFails = (\<lambda>k. None),
      initialFiles = [''a.mp4'', ''b.mp4''],
      pathJoin = slashJoin,
      pathBasename = slashBasename\<rparr>"

definition stuckWorld :: downloadWorld where
  "stuckWorld =
     \<lparr>isCancelled = (\<lambda>i. False),
      cardReadyFails = (\<lambda>i. Some ''Timeout waiting for selector''),
      clickFails = (\<lambda>i. None),
      startedFile = (\<lambda>i. Inl ''Download did not start before timeout''),
      savedFile = (\<lambda>i. Inl ''Download file not saved before timeout''),
      swipeFails = (\<lambda>i. None),
      recoverySwipeFails = (\<lambda>i. Some ''Target closed''),
      mkdirRejects = None,
      openCardFails = (\<lambda>k. None),
      initialFiles = [''a.mp4'', ''b.mp4''],
      pathJoin = slashJoin,
      pathBasename = slashBasename\<rparr>"

text \<open>Example: the 5 files asked for are fewer than the 7 already there.\<close>

definition finishedOptions :: downloadOptions where
  "finishedOptions = \<lparr>maxDownloads = 5, downloadDir = ''/dl'', maxSeenFiles = None, skipCount = Some 7\<rparr>"

subsection \<open>Scheduler: the invariant is kept and yields the properties of the result\<close>

lemma finish_fields [simp]:
  "results (finish s x d e st) = results st @ [mkResult s x d e]"
  "statusById (finish s x d e st) = (statusById st)(ident s \<mapsto> x)"
  "runningPromises (finish s x d e st) = runningPromises st"
  "pendingSteps (finish s x d e st) = pendingSteps st"
  by (simp_all add: finish_def)

lemma deletePending_fields [simp]:
  "results (deletePending s st) = results st"
  "statusById (deletePending s st) = statusById st"
  "runningPromises (deletePending s st) = runningPromises st"
  "pendingSteps (deletePending s st) = removeAll s (pendingSteps st)"
  by (simp_all add: deletePending_def)

lemma mkResult_fields [simp]:
  "stepId (mkResult s x d e) = ident s"
  "r_label (mkResult s x d e) = label s"
  "status (mkResult s x d e) = x"
  "error (mkResult s x d e) = e"
  "durationMs (mkResult s x d e) = d"
  by (simp_all add: mkResult_def)

lemma bodyResult_Some:
  "\<not> nullish (run s) \<Longrightarrow> bodyResult w s = Some (the (bodyResult w s))"
  by (simp add: bodyResult_def nullish_def split: run_behaviour.splits settlement.splits)

lemma bodyResult_fields [simp]:
  "\<not> nullish (run s) \<Longrightarrow> stepId (the (bodyResult w s)) = ident s"
  "\<not> nullish (run s) \<Longrightarrow> terminal (status (the (bodyResult w s)))"
  by (simp_all add: bodyResult_def terminal_def nullish_def split: run_behaviour.splits settlement.splits)

lemma bodyResult_SomeD:
  "bodyResult w s = Some r \<Longrightarrow> stepId r = ident s \<and> terminal (status r) \<and> \<not> nullish (run s)"
  by (auto simp: bodyResult_def terminal_def nullish_def split: run_behaviour.splits settlement.splits)

lemma launchStep_fields:
  "pendingSteps (launchStep w s st) = removeAll s (pendingSteps st)"
  "run s = Async out \<Longrightarrow> results (launchStep w s st) = results st"
  "run s = Async out \<Longrightarrow> statusById (launchStep w s st) = (statusById st)(ident s \<mapsto> S_running)"
  "run s = Async out \<Longrightarrow> runningPromises (launchStep w s st) = AList.update (ident s) (InFlight s out) (runningPromises st)"
  "run s = ThrowsSync m \<Longrightarrow> results (launchStep w s st) = results st @ [the (bodyResult w s)]"
  "run s = ThrowsSync m \<Longrightarrow> statusById (launchStep w s st) = (statusById st)(ident s \<mapsto> S_error)"
  "run s = ThrowsSync m \<Longrightarrow> runningPromises (launchStep w s st) = AList.update (ident s) Settled (AList.delete (ident s) (runningPromises st))"
  "run s = ThrowsNullish \<Longrightarrow> results (launchStep w s st) = results st"
  "run s = ThrowsNullish \<Longrightarrow> statusById (launchStep w s st) = (statusById st)(ident s \<mapsto> S_running)"
  "run s = ThrowsNullish \<Longrightarrow> runningPromises (launchStep w s st) = AList.update (ident s) Failed (AList.delete (ident s) (runningPromises st))"
  by (simp_all add: launchStep_def Let_def bodyResult_def split: run_behaviour.splits)

lemma settle_fields:
  "pendingSteps (settle w (s, out) st) = pendingSteps st"
  "run s = Async out \<Longrightarrow> out \<noteq> RejectedNullish \<Longrightarrow>
     results (settle w (s, out) st) = results st @ [the (bodyResult w s)]"
  "run s = Async out \<Longrightarrow> out \<noteq> RejectedNullish \<Longrightarrow>
     statusById (settle w (s, out) st) = (statusById st)(ident s \<mapsto> status (the (bodyResult w s)))"
  "runningPromises (settle w (s, out) st) = AList.delete (ident s) (runningPromises st)"
  "results (settle w (s, RejectedNullish) st) = results st"
  "statusById (settle w (s, RejectedNullish) st) = statusById st"
  by (simp_all add: settle_def Let_def bodyResult_def split: settlement.splits)

lemma lost_stable:
  assumes "lost m t" and "m' = m(k \<mapsto> x)" and "k \<noteq> ident t"
      and "m k = Some S_pending \<or> m k = Some S_running"
  shows "lost m' t"
  using assms unfolding lost_def by auto

lemma explained_stable:
  "explained w steps m fin r \<Longrightarrow> stable m m' \<Longrightarrow> (fin \<longrightarrow> fin') \<Longrightarrow> explained w steps m' fin' r"
  unfolding explained_def stable_def terminal_def
  by (elim bexE, rule_tac x=s in bexI) (fastforce)+

lemma ident_inj: "distinct (map ident steps) \<Longrightarrow> s \<in> set steps \<Longrightarrow> t \<in> set steps \<Longrightarrow> ident s = ident t \<Longrightarrow> s = t"
  by (meson distinct_map inj_onD)

lemma resolve_Inv:
  assumes inv: "Inv w steps fin st"
    and s: "s \<in> set steps"
    and where_s: "s \<in> set (pendingSteps st) \<or> (ident s, InFlight s out) \<in> set (runningPromises st)"
    and x: "terminal x"
    and m': "statusById st' = (statusById st)(ident s \<mapsto> x)"
    and res': "results st' = results st @ [r]"
    and r: "stepId r = ident s" "status r = x" "explained w steps (statusById st') fin r"
    and pend': "pendingSteps st' = removeAll s (pendingSteps st)"
    and run'd: "distinct (map fst (runningPromises st'))"
    and run'1: "set (runningPromises st') \<subseteq> {kp \<in> set (runningPromises st). fst kp \<noteq> ident s} \<union> {(ident s, Settled)}"
    and run'2: "{kp \<in> set (runningPromises st). fst kp \<noteq> ident s} \<subseteq> set (runningPromises st')"
  shows "Inv w steps fin st'"
proof -
  from inv have dist: "distinct (map ident steps)" by (simp add: Inv_def)
  from inv obtain P where P: "pendingSteps st = filter P steps" unfolding Inv_def by blast
  from inv have pend: "\<And>t. t \<in> set (pendingSteps st) \<Longrightarrow> enabled t \<and> statusById st (ident t) = Some S_pending"
    by (simp add: Inv_def)
  from inv have infl: "\<And>k t o'. (k, InFlight t o') \<in> set (runningPromises st) \<Longrightarrow>
        k = ident t \<and> t \<in> set steps \<and> run t = Async o' \<and> enabled t \<and>
        statusById st k = Some S_running \<and>
        (\<forall>d\<in>set (deps t). statusById st d = Some S_success)"
    unfolding Inv_def by blast
  from inv have stale: "\<And>k. (k, Settled) \<in> set (runningPromises st) \<Longrightarrow> k \<in> stepId ` set (results st)"
    unfolding Inv_def by blast
  from inv have failed: "\<And>k. (k, Failed) \<in> set (runningPromises st) \<Longrightarrow> statusById st k = Some S_running"
    unfolding Inv_def by blast
  from inv have dres: "distinct (map stepId (results st))" by (simp add: Inv_def)
  from inv have res: "\<And>q. q \<in> set (results st) \<Longrightarrow> statusById st (stepId q) = Some (status q) \<and> terminal (status q) \<and>
        explained w steps (statusById st) fin q"
    by (simp add: Inv_def)
  from inv have cov: "\<And>t. t \<in> set steps \<Longrightarrow> t \<in> set (pendingSteps st) \<or>
        (\<exists>o'. (ident t, InFlight t o') \<in> set (runningPromises st)) \<or>
        ident t \<in> stepId ` set (results st) \<or> lost (statusById st) t"
    by (simp add: Inv_def)
  from inv have dom: "dom (statusById st) \<subseteq> ident ` set steps" by (simp add: Inv_def)
  have nonterm: "statusById st (ident s) = Some S_pending \<or> statusById st (ident s) = Some S_running"
    using where_s pend infl by blast
  have notres: "ident s \<notin> stepId ` set (results st)"
  proof
    assume "ident s \<in> stepId ` set (results st)"
    then obtain q where q: "q \<in> set (results st)" "stepId q = ident s" by auto
    from res[OF q(1)] q(2) nonterm show False by (auto simp: terminal_def)
  qed
  have st: "stable (statusById st) (statusById st')"
    unfolding stable_def m' using nonterm by (auto simp: terminal_def)
  have c2: "\<exists>P. pendingSteps st' = filter P steps"
    unfolding pend' P by (rule exI[of _ "\<lambda>t. P t \<and> s \<noteq> t"]) (simp add: removeAll_filter_not_eq)
  have c3: "\<forall>t\<in>set (pendingSteps st'). enabled t \<and> statusById st' (ident t) = Some S_pending"
  proof
    fix t assume t: "t \<in> set (pendingSteps st')"
    then have tp: "t \<in> set (pendingSteps st)" and ts: "t \<noteq> s" by (auto simp: pend')
    from tp P have "t \<in> set steps" by simp
    with ts s dist have "ident t \<noteq> ident s" using ident_inj by blast
    with pend[OF tp] show "enabled t \<and> statusById st' (ident t) = Some S_pending" by (simp add: m')
  qed
  have c5: "\<forall>k t o'. (k, InFlight t o') \<in> set (runningPromises st') \<longrightarrow>
        k = ident t \<and> t \<in> set steps \<and> run t = Async o' \<and> enabled t \<and>
        statusById st' k = Some S_running \<and>
        (\<forall>d\<in>set (deps t). statusById st' d = Some S_success)"
  proof (intro allI impI)
    fix k t o' assume "(k, InFlight t o') \<in> set (runningPromises st')"
    with run'1 have old: "(k, InFlight t o') \<in> set (runningPromises st)" and k: "k \<noteq> ident s" by auto
    from infl[OF old] k nonterm show "k = ident t \<and> t \<in> set steps \<and> run t = Async o' \<and> enabled t \<and>
        statusById st' k = Some S_running \<and>
        (\<forall>d\<in>set (deps t). statusById st' d = Some S_success)"
      by (auto simp: m')
  qed
  have c6: "\<forall>k. (k, Settled) \<in> set (runningPromises st') \<longrightarrow> k \<in> stepId ` set (results st')"
    using run'1 stale r(1) by (auto simp: res' image_iff) 
  have c6b: "\<forall>k. (k, Failed) \<in> set (runningPromises st') \<longrightarrow> statusById st' k = Some S_running"
    using run'1 failed by (auto simp: m')
  have c7: "distinct (map stepId (results st'))"
    using dres notres r(1) by (simp add: res')
  have c8: "\<forall>q\<in>set (results st'). statusById st' (stepId q) = Some (status q) \<and> terminal (status q) \<and>
        explained w steps (statusById st') fin q"
  proof
    fix q assume "q \<in> set (results st')"
    then consider "q = r" | "q \<in> set (results st)" by (auto simp: res')
    then show "statusById st' (stepId q) = Some (status q) \<and> terminal (status q) \<and>
        explained w steps (statusById st') fin q"
    proof cases
      case 1 then show ?thesis using r x by (simp add: m')
    next
      case 2
      then have "stepId q \<noteq> ident s" using notres by (metis imageI)
      with res[OF 2] explained_stable[OF _ st] show ?thesis by (auto simp: m')
    qed
  qed
  have c9: "\<forall>t\<in>set steps. t \<in> set (pendingSteps st') \<or>
        (\<exists>o'. (ident t, InFlight t o') \<in> set (runningPromises st')) \<or>
        ident t \<in> stepId ` set (results st') \<or> lost (statusById st') t"
  proof
    fix t assume t: "t \<in> set steps"
    show "t \<in> set (pendingSteps st') \<or>
        (\<exists>o'. (ident t, InFlight t o') \<in> set (runningPromises st')) \<or>
        ident t \<in> stepId ` set (results st') \<or> lost (statusById st') t"
    proof (cases "t = s")
      case True then show ?thesis using r(1) by (simp add: res')
    next
      case False
      with t s dist have ne: "ident t \<noteq> ident s" using ident_inj by blast
      have "lost (statusById st') t" if "lost (statusById st) t"
        by (rule lost_stable[OF that m' ne[symmetric] nonterm])
      with cov[OF t] False run'2 ne show ?thesis by (auto simp: pend' res')
    qed
  qed
  have c10: "dom (statusById st') \<subseteq> ident ` set steps"
    using dom s by (auto simp: m')
  show ?thesis unfolding Inv_def using dist c2 c3 run'd c5 c6 c6b c7 c8 c9 c10 by blast
qed

lemma Inv_pending_in_steps: "Inv w steps fin st \<Longrightarrow> s \<in> set (pendingSteps st) \<Longrightarrow> s \<in> set steps"
  unfolding Inv_def by (metis filter_is_subset subsetD)

lemma Inv_pending_status: "Inv w steps fin st \<Longrightarrow> s \<in> set (pendingSteps st) \<Longrightarrow> statusById st (ident s) = Some S_pending"
  unfolding Inv_def by blast

lemma Inv_pending_enabled: "Inv w steps fin st \<Longrightarrow> s \<in> set (pendingSteps st) \<Longrightarrow> enabled s"
  unfolding Inv_def by blast

lemma Inv_pending_distinct: "Inv w steps fin st \<Longrightarrow> distinct (pendingSteps st)"
  unfolding Inv_def by (metis distinct_filter distinct_map)

lemma Inv_result_status:
  "Inv w steps fin st \<Longrightarrow> r \<in> set (results st) \<Longrightarrow> statusById st (stepId r) = Some (status r) \<and> terminal (status r)"
  unfolding Inv_def by blast

lemma Inv_running_key:
  assumes "Inv w steps fin st" "(k, p) \<in> set (runningPromises st)"
  shows "statusById st k = Some S_running \<or> (\<exists>x. statusById st k = Some x \<and> terminal x)"
proof (cases p)
  case (InFlight t out)
  with assms show ?thesis unfolding Inv_def by blast
next
  case Settled
  with assms have "k \<in> stepId ` set (results st)" unfolding Inv_def by blast
  then obtain r where "r \<in> set (results st)" "stepId r = k" by auto
  with Inv_result_status[OF assms(1)] show ?thesis by blast
next
  case Failed
  with assms show ?thesis unfolding Inv_def by blast
qed

lemma Inv_pending_not_running:
  assumes "Inv w steps fin st" "s \<in> set (pendingSteps st)"
  shows "ident s \<notin> fst ` set (runningPromises st)"
proof
  assume "ident s \<in> fst ` set (runningPromises st)"
  then obtain p where "(ident s, p) \<in> set (runningPromises st)" by auto
  from Inv_running_key[OF assms(1) this] Inv_pending_status[OF assms]
  show False by (auto simp: terminal_def)
qed

lemma Inv_pending_not_running':
  "Inv w steps fin st \<Longrightarrow> s \<in> set (pendingSteps st) \<Longrightarrow> (ident s, p) \<notin> set (runningPromises st)"
  using Inv_pending_not_running by (metis fst_conv imageI)

lemma update_fresh: "k \<notin> fst ` set ps \<Longrightarrow> AList.update k v ps = ps @ [(k, v)]"
  by (induction ps) auto

lemma delete_fresh: "k \<notin> fst ` set ps \<Longrightarrow> AList.delete k ps = ps"
  by (induction ps) auto

lemma set_delete: "set (AList.delete k ps) = {kp \<in> set ps. fst kp \<noteq> k}"
  by (induction ps) auto

lemma skip_Inv:
  assumes inv: "Inv w steps fin st" and s: "s \<in> set (pendingSteps st)"
      and failed: "anyDepFailed st (deps s)"
  shows "Inv w steps fin (deletePending s (finish s S_skipped 0 (Some ''Dependency failed'') st))"
proof (rule resolve_Inv[OF inv Inv_pending_in_steps[OF inv s], where x = S_skipped and out = Fulfilled])
  let ?st' = "deletePending s (finish s S_skipped 0 (Some ''Dependency failed'') st)"
  show "s \<in> set (pendingSteps st) \<or> (ident s, InFlight s Fulfilled) \<in> set (runningPromises st)"
    using s by simp
  show "terminal S_skipped" by (simp add: terminal_def)
  show "statusById ?st' = (statusById st)(ident s \<mapsto> S_skipped)" by simp
  show "results ?st' = results st @ [mkResult s S_skipped 0 (Some ''Dependency failed'')]" by simp
  show "stepId (mkResult s S_skipped 0 (Some ''Dependency failed'')) = ident s" by simp
  show "status (mkResult s S_skipped 0 (Some ''Dependency failed'')) = S_skipped" by simp
  show "pendingSteps ?st' = removeAll s (pendingSteps st)" by simp
  show "distinct (map fst (runningPromises ?st'))" using inv by (simp add: Inv_def)
  from Inv_pending_not_running'[OF inv s]
  show "set (runningPromises ?st') \<subseteq> {kp \<in> set (runningPromises st). fst kp \<noteq> ident s} \<union> {(ident s, Settled)}"
    by auto
  show "{kp \<in> set (runningPromises st). fst kp \<noteq> ident s} \<subseteq> set (runningPromises ?st')" by auto
  from failed obtain d where d: "d \<in> set (deps s)" "statusById st d = Some S_error \<or> statusById st d = Some S_skipped"
    by (auto simp: anyDepFailed_def list_ex_iff)
  with Inv_pending_status[OF inv s] have "d \<noteq> ident s" by auto
  with d have "statusById ?st' d = Some S_error \<or> statusById ?st' d = Some S_skipped" by simp
  with d(1) Inv_pending_in_steps[OF inv s] Inv_pending_enabled[OF inv s]
  show "explained w steps (statusById ?st') fin (mkResult s S_skipped 0 (Some ''Dependency failed''))"
    unfolding explained_def by blast
qed

text \<open>Starting a pending step: its promise enters the map, its status becomes \<open>running\<close>.\<close>

lemma start_Inv:
  assumes inv: "Inv w steps fin st" and s: "s \<in> set (pendingSteps st)"
      and ready: "\<forall>d\<in>set (deps s). statusById st d = Some S_success"
      and p: "(\<exists>out. p = InFlight s out \<and> run s = Async out) \<or> (p = Failed \<and> run s = ThrowsNullish)"
      and pend': "pendingSteps st' = removeAll s (pendingSteps st)"
      and res': "results st' = results st"
      and m': "statusById st' = (statusById st)(ident s \<mapsto> S_running)"
      and run': "runningPromises st' = runningPromises st @ [(ident s, p)]"
  shows "Inv w steps fin st'"
proof -
  let ?k = "ident s"
  note f = pend' res' m'
  have fresh: "?k \<notin> fst ` set (runningPromises st)" by (rule Inv_pending_not_running[OF inv s])
  have sst: "s \<in> set steps" by (rule Inv_pending_in_steps[OF inv s])
  have spend: "statusById st ?k = Some S_pending" by (rule Inv_pending_status[OF inv s])
  have sen: "enabled s" by (rule Inv_pending_enabled[OF inv s])
  from inv have dist: "distinct (map ident steps)" by (simp add: Inv_def)
  from inv obtain P where P: "pendingSteps st = filter P steps" unfolding Inv_def by blast
  have st: "stable (statusById st) (statusById st')"
    unfolding stable_def using spend by (auto simp: f terminal_def)
  have ready': "\<forall>d\<in>set (deps s). statusById st' d = Some S_success"
    using ready spend by (auto simp: f)
  have c2: "\<exists>P. pendingSteps st' = filter P steps"
    unfolding f P by (rule exI[of _ "\<lambda>t. P t \<and> s \<noteq> t"]) (simp add: removeAll_filter_not_eq)
  have c3: "\<forall>t\<in>set (pendingSteps st'). enabled t \<and> statusById st' (ident t) = Some S_pending"
  proof
    fix t assume t: "t \<in> set (pendingSteps st')"
    then have tp: "t \<in> set (pendingSteps st)" and ts: "t \<noteq> s" by (auto simp: f)
    from ts sst dist Inv_pending_in_steps[OF inv tp] have "ident t \<noteq> ?k" using ident_inj by blast
    with Inv_pending_status[OF inv tp] Inv_pending_enabled[OF inv tp]
    show "enabled t \<and> statusById st' (ident t) = Some S_pending" by (simp add: f)
  qed
  have c4: "distinct (map fst (runningPromises st'))"
    using inv fresh by (simp add: run' Inv_def)
  have c5: "\<forall>k t o'. (k, InFlight t o') \<in> set (runningPromises st') \<longrightarrow>
        k = ident t \<and> t \<in> set steps \<and> run t = Async o' \<and> enabled t \<and>
        statusById st' k = Some S_running \<and>
        (\<forall>d\<in>set (deps t). statusById st' d = Some S_success)"
  proof (intro allI impI)
    fix k t o' assume kt: "(k, InFlight t o') \<in> set (runningPromises st')"
    show "k = ident t \<and> t \<in> set steps \<and> run t = Async o' \<and> enabled t \<and>
        statusById st' k = Some S_running \<and>
        (\<forall>d\<in>set (deps t). statusById st' d = Some S_success)"
    proof (cases "(k, InFlight t o') \<in> set (runningPromises st)")
      case True
      from inv True have old: "k = ident t \<and> t \<in> set steps \<and> run t = Async o' \<and> enabled t \<and>
        statusById st k = Some S_running \<and>
        (\<forall>d\<in>set (deps t). statusById st d = Some S_success)" unfolding Inv_def by blast
      with spend show ?thesis by (auto simp: f)
    next
      case False
      with kt have "k = ?k" "p = InFlight t o'" by (auto simp: run')
      with p have "k = ?k" "t = s" "run s = Async o'" by auto
      with ready' sst sen show ?thesis by (auto simp: f)
    qed
  qed
  have c6: "\<forall>k. (k, Settled) \<in> set (runningPromises st') \<longrightarrow> k \<in> stepId ` set (results st')"
    using inv p by (auto simp: run' f Inv_def)
  have c6b: "\<forall>k. (k, Failed) \<in> set (runningPromises st') \<longrightarrow> statusById st' k = Some S_running"
  proof (intro allI impI)
    fix k assume "(k, Failed) \<in> set (runningPromises st')"
    then consider "(k, Failed) \<in> set (runningPromises st)" | "k = ?k" by (auto simp: run')
    then show "statusById st' k = Some S_running"
    proof cases
      case 1
      with inv have "statusById st k = Some S_running" unfolding Inv_def by blast
      then show ?thesis by (simp add: f)
    next
      case 2
      then show ?thesis by (simp add: f)
    qed
  qed
  have c7: "distinct (map stepId (results st'))" using inv by (simp add: f Inv_def)
  have c8: "\<forall>q\<in>set (results st'). statusById st' (stepId q) = Some (status q) \<and> terminal (status q) \<and>
        explained w steps (statusById st') fin q"
  proof
    fix q assume "q \<in> set (results st')"
    then have q: "q \<in> set (results st)" by (simp add: f)
    with inv have old: "statusById st (stepId q) = Some (status q)" "terminal (status q)"
        "explained w steps (statusById st) fin q" unfolding Inv_def by blast+
    from old(1,2) st have "statusById st' (stepId q) = Some (status q)" unfolding stable_def by blast
    with old(2) explained_stable[OF old(3) st]
    show "statusById st' (stepId q) = Some (status q) \<and> terminal (status q) \<and>
        explained w steps (statusById st') fin q" by simp
  qed
  have c9: "\<forall>t\<in>set steps. t \<in> set (pendingSteps st') \<or>
        (\<exists>o'. (ident t, InFlight t o') \<in> set (runningPromises st')) \<or>
        ident t \<in> stepId ` set (results st') \<or> lost (statusById st') t"
  proof
    fix t assume t: "t \<in> set steps"
    from inv t have old: "t \<in> set (pendingSteps st) \<or>
        (\<exists>o'. (ident t, InFlight t o') \<in> set (runningPromises st)) \<or>
        ident t \<in> stepId ` set (results st) \<or> lost (statusById st) t" unfolding Inv_def by blast
    show "t \<in> set (pendingSteps st') \<or>
        (\<exists>o'. (ident t, InFlight t o') \<in> set (runningPromises st')) \<or>
        ident t \<in> stepId ` set (results st') \<or> lost (statusById st') t"
    proof (cases "t = s")
      case True
      from p show ?thesis
      proof
        assume "\<exists>out. p = InFlight s out \<and> run s = Async out"
        with True show ?thesis by (auto simp: run')
      next
        assume "p = Failed \<and> run s = ThrowsNullish"
        with sen ready' have "lost (statusById st') s" by (simp add: lost_def nullish_def f)
        with True show ?thesis by simp
      qed
    next
      case False
      with t sst dist have ne: "ident t \<noteq> ?k" using ident_inj by blast
      have "lost (statusById st') t" if "lost (statusById st) t"
        by (rule lost_stable[OF that m' ne[symmetric]]) (simp add: spend)
      with old False show ?thesis by (auto simp: f run')
    qed
  qed
  have c10: "dom (statusById st') \<subseteq> ident ` set steps"
    using inv sst by (auto simp: f Inv_def)
  show ?thesis unfolding Inv_def using dist c2 c3 c4 c5 c6 c6b c7 c8 c9 c10 by blast
qed

lemma launchStep_Inv:
  assumes inv: "Inv w steps fin st" and s: "s \<in> set (pendingSteps st)"
      and ready: "\<forall>d\<in>set (deps s). statusById st d = Some S_success"
  shows "Inv w steps fin (launchStep w s st)"
proof (cases "run s")
  case (ThrowsSync m)
  let ?st' = "launchStep w s st"
  note f = launchStep_fields(5,6)[OF ThrowsSync] launchStep_fields(1)
  have nn: "\<not> nullish (run s)" by (simp add: nullish_def ThrowsSync)
  from Inv_pending_not_running[OF inv s]
  have run': "runningPromises ?st' = runningPromises st @ [(ident s, Settled)]"
    by (simp add: launchStep_fields(7)[OF ThrowsSync] delete_fresh update_fresh)
  show ?thesis
  proof (rule resolve_Inv[OF inv Inv_pending_in_steps[OF inv s], where x = S_error and out = Fulfilled])
    show "s \<in> set (pendingSteps st) \<or> (ident s, InFlight s Fulfilled) \<in> set (runningPromises st)"
      using s by simp
    show "terminal S_error" by (simp add: terminal_def)
    show "statusById ?st' = (statusById st)(ident s \<mapsto> S_error)" by (simp add: f)
    show "results ?st' = results st @ [the (bodyResult w s)]" by (simp add: f)
    show "stepId (the (bodyResult w s)) = ident s" by (simp add: nn)
    show "status (the (bodyResult w s)) = S_error" by (simp add: bodyResult_def ThrowsSync)
    show "pendingSteps ?st' = removeAll s (pendingSteps st)" by (simp add: f)
    show "distinct (map fst (runningPromises ?st'))"
      using inv Inv_pending_not_running[OF inv s] by (simp add: run' Inv_def)
    show "set (runningPromises ?st') \<subseteq> {kp \<in> set (runningPromises st). fst kp \<noteq> ident s} \<union> {(ident s, Settled)}"
      using Inv_pending_not_running'[OF inv s] by (auto simp: run')
    show "{kp \<in> set (runningPromises st). fst kp \<noteq> ident s} \<subseteq> set (runningPromises ?st')"
      by (auto simp: run')
    from ready Inv_pending_status[OF inv s]
    have "\<forall>d\<in>set (deps s). statusById ?st' d = Some S_success" by (auto simp: f)
    with Inv_pending_in_steps[OF inv s] Inv_pending_enabled[OF inv s] bodyResult_Some[OF nn, of w]
    show "explained w steps (statusById ?st') fin (the (bodyResult w s))"
      unfolding explained_def by blast
  qed
next
  case ThrowsNullish
  have fresh: "ident s \<notin> fst ` set (runningPromises st)" by (rule Inv_pending_not_running[OF inv s])
  show ?thesis
  proof (rule start_Inv[OF inv s ready, where p = Failed])
    show "(\<exists>out. Failed = InFlight s out \<and> run s = Async out) \<or> (Failed = Failed \<and> run s = ThrowsNullish)"
      using ThrowsNullish by simp
    show "runningPromises (launchStep w s st) = runningPromises st @ [(ident s, Failed)]"
      using fresh by (simp add: launchStep_fields(10)[OF ThrowsNullish] delete_fresh update_fresh)
  qed (simp_all add: launchStep_fields(1) launchStep_fields(8,9)[OF ThrowsNullish])
next
  case (Async out)
  have fresh: "ident s \<notin> fst ` set (runningPromises st)" by (rule Inv_pending_not_running[OF inv s])
  show ?thesis
  proof (rule start_Inv[OF inv s ready, where p = "InFlight s out"])
    show "(\<exists>out'. InFlight s out = InFlight s out' \<and> run s = Async out') \<or>
          (InFlight s out = Failed \<and> run s = ThrowsNullish)"
      using Async by simp
    show "runningPromises (launchStep w s st) = runningPromises st @ [(ident s, InFlight s out)]"
      using fresh by (simp add: launchStep_fields(4)[OF Async] update_fresh)
  qed (simp_all add: launchStep_fields(1) launchStep_fields(2,3)[OF Async])
qed

text \<open>The wrapper of a body that rejected with \<open>null\<close> or \<open>undefined\<close>: the step is lost.\<close>

lemma lose_Inv:
  assumes inv: "Inv w steps fin st"
      and s: "(ident s, InFlight s RejectedNullish) \<in> set (runningPromises st)"
  shows "Inv w steps fin (settle w (s, RejectedNullish) st)"
proof -
  let ?st' = "settle w (s, RejectedNullish) st"
  note f = settle_fields(1,4,5,6)
  from inv s have facts: "s \<in> set steps" "run s = Async RejectedNullish" "enabled s"
        "statusById st (ident s) = Some S_running"
        "\<forall>d\<in>set (deps s). statusById st d = Some S_success"
    unfolding Inv_def by blast+
  from inv have dist: "distinct (map ident steps)" by (simp add: Inv_def)
  have sub: "set (runningPromises ?st') \<subseteq> set (runningPromises st)"
    by (auto simp: f set_delete)
  have ls: "lost (statusById st) s"
    using facts by (simp add: lost_def nullish_def)
  have c9: "\<forall>t\<in>set steps. t \<in> set (pendingSteps ?st') \<or>
        (\<exists>o'. (ident t, InFlight t o') \<in> set (runningPromises ?st')) \<or>
        ident t \<in> stepId ` set (results ?st') \<or> lost (statusById ?st') t"
  proof
    fix t assume t: "t \<in> set steps"
    from inv t have old: "t \<in> set (pendingSteps st) \<or>
        (\<exists>o'. (ident t, InFlight t o') \<in> set (runningPromises st)) \<or>
        ident t \<in> stepId ` set (results st) \<or> lost (statusById st) t" unfolding Inv_def by blast
    show "t \<in> set (pendingSteps ?st') \<or>
        (\<exists>o'. (ident t, InFlight t o') \<in> set (runningPromises ?st')) \<or>
        ident t \<in> stepId ` set (results ?st') \<or> lost (statusById ?st') t"
    proof (cases "t = s")
      case True
      with ls show ?thesis by (simp add: f)
    next
      case False
      with t facts(1) dist have "ident t \<noteq> ident s" using ident_inj by blast
      with old show ?thesis by (auto simp: f set_delete)
    qed
  qed
  from inv sub have c5: "\<forall>k t o'. (k, InFlight t o') \<in> set (runningPromises ?st') \<longrightarrow>
        k = ident t \<and> t \<in> set steps \<and> run t = Async o' \<and> enabled t \<and>
        statusById ?st' k = Some S_running \<and>
        (\<forall>d\<in>set (deps t). statusById ?st' d = Some S_success)"
    unfolding Inv_def f by blast
  from inv sub have c6: "\<forall>k. (k, Settled) \<in> set (runningPromises ?st') \<longrightarrow> k \<in> stepId ` set (results ?st')"
    unfolding Inv_def f by blast
  from inv sub have c6b: "\<forall>k. (k, Failed) \<in> set (runningPromises ?st') \<longrightarrow> statusById ?st' k = Some S_running"
    unfolding Inv_def f by blast
  from inv have c4: "distinct (map fst (runningPromises ?st'))"
    by (simp add: f Inv_def distinct_delete)
  from inv have rest: "(\<exists>P. pendingSteps ?st' = filter P steps)"
      "\<forall>t\<in>set (pendingSteps ?st'). enabled t \<and> statusById ?st' (ident t) = Some S_pending"
      "distinct (map stepId (results ?st'))"
      "\<forall>r\<in>set (results ?st'). statusById ?st' (stepId r) = Some (status r) \<and> terminal (status r) \<and>
         explained w steps (statusById ?st') fin r"
      "dom (statusById ?st') \<subseteq> ident ` set steps"
    unfolding Inv_def f by blast+
  show ?thesis unfolding Inv_def using dist rest c4 c5 c6 c6b c9 by blast
qed

lemma settle_Inv:
  assumes inv: "Inv w steps fin st" and s: "(ident s, InFlight s out) \<in> set (runningPromises st)"
  shows "Inv w steps fin (settle w (s, out) st)"
proof (cases "out = RejectedNullish")
  case True
  with lose_Inv[OF inv] s show ?thesis by simp
next
  case nn: False
  let ?st' = "settle w (s, out) st"
  from inv s have facts: "s \<in> set steps" "run s = Async out" "enabled s"
        "statusById st (ident s) = Some S_running"
        "\<forall>d\<in>set (deps s). statusById st d = Some S_success"
    unfolding Inv_def by blast+
  have nu: "\<not> nullish (run s)" using facts(2) nn by (simp add: nullish_def)
  note f = settle_fields(2,3)[OF facts(2) nn] settle_fields(1,4)
  show ?thesis
  proof (rule resolve_Inv[OF inv facts(1), where x = "status (the (bodyResult w s))" and out = out])
    show "s \<in> set (pendingSteps st) \<or> (ident s, InFlight s out) \<in> set (runningPromises st)"
      using s by simp
    show "terminal (status (the (bodyResult w s)))" by (simp add: nu)
    show "statusById ?st' = (statusById st)(ident s \<mapsto> status (the (bodyResult w s)))" by (simp add: f)
    show "results ?st' = results st @ [the (bodyResult w s)]" by (simp add: f)
    show "stepId (the (bodyResult w s)) = ident s" by (simp add: nu)
    show "status (the (bodyResult w s)) = status (the (bodyResult w s))" by simp
    show "pendingSteps ?st' = removeAll s (pendingSteps st)"
    proof -
      have "s \<notin> set (pendingSteps st)"
        using Inv_pending_status[OF inv] facts(4) by auto
      then show ?thesis by (simp add: f)
    qed
    show "distinct (map fst (runningPromises ?st'))"
      using inv by (simp add: f Inv_def distinct_delete)
    show "set (runningPromises ?st') \<subseteq> {kp \<in> set (runningPromises st). fst kp \<noteq> ident s} \<union> {(ident s, Settled)}"
      by (auto simp: f set_delete)
    show "{kp \<in> set (runningPromises st). fst kp \<noteq> ident s} \<subseteq> set (runningPromises ?st')"
      by (auto simp: f set_delete)
    from facts(4,5) have "\<forall>d\<in>set (deps s). statusById ?st' d = Some S_success" by (auto simp: f)
    with facts(1,3) bodyResult_Some[OF nu, of w]
    show "explained w steps (statusById ?st') fin (the (bodyResult w s))"
      unfolding explained_def by blast
  qed
qed

lemma allDepsSuccess_iff: "allDepsSuccess st ds \<longleftrightarrow> (\<forall>d\<in>set ds. statusById st d = Some S_success)"
  by (simp add: allDepsSuccess_def list_all_iff)

lemma anyDepFailed_iff:
  "anyDepFailed st ds \<longleftrightarrow> (\<exists>d\<in>set ds. statusById st d = Some S_error \<or> statusById st d = Some S_skipped)"
  by (simp add: anyDepFailed_def list_ex_iff)

lemma readyOK_skip:
  assumes inv: "Inv w steps fin st" and s: "s \<in> set (pendingSteps st)" and rd: "readyOK st rd" and ns: "s \<notin> set rd"
      and m': "statusById st' = (statusById st)(ident s \<mapsto> x)" and p': "pendingSteps st' = removeAll s (pendingSteps st)"
  shows "readyOK st' rd"
proof -
  have "statusById st d = Some S_success \<Longrightarrow> statusById st' d = Some S_success" for d
    using Inv_pending_status[OF inv s] by (auto simp: m')
  with rd ns show ?thesis unfolding readyOK_def by (auto simp: p')
qed

lemma findReady_Inv:
  "Inv w steps fin st \<Longrightarrow> distinct ps \<Longrightarrow> set ps \<subseteq> set (pendingSteps st) \<Longrightarrow>
   readyOK st rd \<Longrightarrow> set rd \<inter> set ps = {} \<Longrightarrow> findReady ps st rd = (st', rd') \<Longrightarrow>
   Inv w steps fin st' \<and> readyOK st' rd' \<and> runningPromises st' = runningPromises st"
proof (induction ps st rd rule: findReady.induct)
  case (1 st readySteps)
  then show ?case by simp
next
  case (2 step rest st readySteps)
  let ?sk = "deletePending step (finish step S_skipped 0 (Some ''Dependency failed'') st)"
  from "2.prems" have sp: "step \<in> set (pendingSteps st)" and dr: "distinct rest" and sr: "step \<notin> set rest"
      and nrd: "step \<notin> set readySteps" and rr: "set readySteps \<inter> set rest = {}"
    by auto
  show ?case
  proof (cases "anyDepFailed st (deps step)")
    case True
    have i: "Inv w steps fin ?sk" by (rule skip_Inv[OF "2.prems"(1) sp True])
    have r: "readyOK ?sk readySteps"
      by (rule readyOK_skip[OF "2.prems"(1) sp "2.prems"(4) nrd]) simp_all
    have sub: "set rest \<subseteq> set (pendingSteps ?sk)" using "2.prems"(3) sr by auto
    from "2.prems"(6) True have fr: "findReady rest ?sk readySteps = (st', rd')" by simp
    from "2.IH"(1)[OF True i dr sub r rr fr] show ?thesis by simp
  next
    case False
    show ?thesis
    proof (cases "allDepsSuccess st (deps step)")
      case True
      have r: "readyOK st (readySteps @ [step])"
        using "2.prems"(4) sp nrd True by (auto simp: readyOK_def allDepsSuccess_iff)
      have sub: "set rest \<subseteq> set (pendingSteps st)" using "2.prems"(3) by auto
      have rr': "set (readySteps @ [step]) \<inter> set rest = {}" using rr sr by auto
      from "2.prems"(6) False True have fr: "findReady rest st (readySteps @ [step]) = (st', rd')" by simp
      from "2.IH"(2)[OF False True "2.prems"(1) dr sub r rr' fr] show ?thesis .
    next
      case nr: False
      have sub: "set rest \<subseteq> set (pendingSteps st)" using "2.prems"(3) by auto
      from "2.prems"(6) False nr have fr: "findReady rest st readySteps = (st', rd')" by simp
      from "2.IH"(3)[OF False nr "2.prems"(1) dr sub "2.prems"(4) rr fr] show ?thesis .
    qed
  qed
qed

lemma launch_Inv:
  "Inv w steps fin st \<Longrightarrow> readyOK st rd \<Longrightarrow> Inv w steps fin (launch w rd st)"
proof (induction rd arbitrary: st)
  case Nil
  then show ?case by (simp add: launch_def)
next
  case (Cons s rd)
  from Cons.prems(2) have sp: "s \<in> set (pendingSteps st)"
      and ok: "\<forall>d\<in>set (deps s). statusById st d = Some S_success" and ns: "s \<notin> set rd"
      and rd: "readyOK st rd"
    by (auto simp: readyOK_def)
  have i: "Inv w steps fin (launchStep w s st)"
    by (rule launchStep_Inv[OF Cons.prems(1) sp ok])
  have "\<exists>x. statusById (launchStep w s st) = (statusById st)(ident s \<mapsto> x)"
    by (cases "run s") (auto simp: launchStep_fields)
  then obtain x where m': "statusById (launchStep w s st) = (statusById st)(ident s \<mapsto> x)" ..
  have r: "readyOK (launchStep w s st) rd"
    by (rule readyOK_skip[OF Cons.prems(1) sp rd ns m']) (simp add: launchStep_fields)
  from Cons.IH[OF i r] show ?case by (simp add: launch_def)
qed

lemma settleAll_Inv:
  "Inv w steps fin st \<Longrightarrow> inFlightAll st done \<Longrightarrow> Inv w steps fin (fold (settle w) done st)"
proof (induction "done" arbitrary: st)
  case Nil
  then show ?case by simp
next
  case (Cons p rest)
  obtain s out where p: "p = (s, out)" by (cases p)
  from Cons.prems(2) have infl: "(ident s, InFlight s out) \<in> set (runningPromises st)"
    by (simp add: inFlightAll_def p)
  have i: "Inv w steps fin (settle w p st)" unfolding p by (rule settle_Inv[OF Cons.prems(1) infl])
  have r: "inFlightAll (settle w p st) rest"
    using Cons.prems(2) unfolding inFlightAll_def p
    by (force simp: settle_fields set_delete)
  from Cons.IH[OF i r] show ?case by simp
qed

lemma settledNow_inFlightAll:
  assumes "Inv w steps fin st"
  shows "inFlightAll st (settledNow w n st)"
proof -
  let ?ids = "remdups (settled w n (map fst (runningPromises st)))"
  have 1: "inFlightOf st i = Some p \<Longrightarrow> (i, InFlight (fst p) (snd p)) \<in> set (runningPromises st) \<and> ident (fst p) = i" for i p
  proof -
    assume a: "inFlightOf st i = Some p"
    then have "map_of (runningPromises st) i = Some (InFlight (fst p) (snd p))"
      by (auto simp: inFlightOf_def split: option.splits promise.splits)
    then have m: "(i, InFlight (fst p) (snd p)) \<in> set (runningPromises st)" by (rule map_of_SomeD)
    with assms have "i = ident (fst p)" unfolding Inv_def by blast
    with m show ?thesis by simp
  qed
  have d: "distinct ?ids" by simp
  have "distinct (map (ident \<circ> fst) (List.map_filter (inFlightOf st) xs))" if "distinct xs" for xs
    using that
  proof (induction xs)
    case Nil
    then show ?case by (simp add: List.map_filter_simps)
  next
    case (Cons a xs)
    show ?case
    proof (cases "inFlightOf st a")
      case None
      with Cons show ?thesis by (simp add: List.map_filter_simps)
    next
      case (Some p)
      have "ident (fst p) \<notin> (ident \<circ> fst) ` set (List.map_filter (inFlightOf st) xs)"
      proof
        assume "ident (fst p) \<in> (ident \<circ> fst) ` set (List.map_filter (inFlightOf st) xs)"
        then obtain q where q: "q \<in> set (List.map_filter (inFlightOf st) xs)" "ident (fst q) = ident (fst p)"
          by auto
        then obtain b where b: "b \<in> set xs" "inFlightOf st b = Some q"
          by (auto simp: List.map_filter_def)
        from 1[OF b(2)] 1[OF Some] q(2) have "a = b" by simp
        with b(1) Cons.prems show False by simp
      qed
      with Cons Some show ?thesis by (simp add: List.map_filter_simps)
    qed
  qed
  from this[OF d] have dd: "distinct (map (ident \<circ> fst) (settledNow w n st))" by (simp add: settledNow_def)
  have "\<forall>p\<in>set (settledNow w n st). (ident (fst p), InFlight (fst p) (snd p)) \<in> set (runningPromises st)"
    using 1 by (auto simp: settledNow_def List.map_filter_def)
  with dd show ?thesis by (simp add: inFlightAll_def)
qed

lemma finish_pending_commute:
  "fold (\<lambda>s. finish s x d e) ps (st\<lparr>pendingSteps := q\<rparr>) = (fold (\<lambda>s. finish s x d e) ps st)\<lparr>pendingSteps := q\<rparr>"
proof (induction ps arbitrary: st)
  case Nil
  show ?case by simp
next
  case (Cons a ps)
  have step: "finish a x d e (st\<lparr>pendingSteps := q\<rparr>) = (finish a x d e st)\<lparr>pendingSteps := q\<rparr>"
    by (simp add: finish_def)
  show ?case by (simp only: fold_simps step Cons.IH)
qed

lemma filter_removeAll_notin:
  "filter (\<lambda>t. t \<notin> set ps) (removeAll s xs) = filter (\<lambda>t. t \<notin> set (s # ps)) xs"
  by (induction xs) auto

lemma finishAll_Inv:
  assumes x: "terminal x"
      and expl: "\<And>s m. s \<in> set steps \<Longrightarrow> enabled s \<Longrightarrow> explained w steps m fin (mkResult s x 0 e)"
  shows "Inv w steps fin st \<Longrightarrow> distinct ps \<Longrightarrow> set ps \<subseteq> set (pendingSteps st) \<Longrightarrow>
     Inv w steps fin ((fold (\<lambda>s. finish s x 0 e) ps st)\<lparr>pendingSteps := filter (\<lambda>t. t \<notin> set ps) (pendingSteps st)\<rparr>)"
proof (induction ps arbitrary: st)
  case Nil
  then show ?case by simp
next
  case (Cons s ps)
  let ?st1 = "deletePending s (finish s x 0 e st)"
  from Cons.prems have sp: "s \<in> set (pendingSteps st)" and ns: "s \<notin> set ps" and dps: "distinct ps"
      and sub: "set ps \<subseteq> set (pendingSteps st)" by auto
  have i: "Inv w steps fin ?st1"
  proof (rule resolve_Inv[OF Cons.prems(1) Inv_pending_in_steps[OF Cons.prems(1) sp], where x = x and out = Fulfilled])
    show "s \<in> set (pendingSteps st) \<or> (ident s, InFlight s Fulfilled) \<in> set (runningPromises st)"
      using sp by simp
    show "terminal x" by (rule x)
    show "statusById ?st1 = (statusById st)(ident s \<mapsto> x)" by simp
    show "results ?st1 = results st @ [mkResult s x 0 e]" by simp
    show "stepId (mkResult s x 0 e) = ident s" by simp
    show "status (mkResult s x 0 e) = x" by simp
    show "pendingSteps ?st1 = removeAll s (pendingSteps st)" by simp
    show "distinct (map fst (runningPromises ?st1))" using Cons.prems(1) by (simp add: Inv_def)
    from Inv_pending_not_running'[OF Cons.prems(1) sp]
    show "set (runningPromises ?st1) \<subseteq> {kp \<in> set (runningPromises st). fst kp \<noteq> ident s} \<union> {(ident s, Settled)}"
      by auto
    show "{kp \<in> set (runningPromises st). fst kp \<noteq> ident s} \<subseteq> set (runningPromises ?st1)" by auto
    show "explained w steps (statusById ?st1) fin (mkResult s x 0 e)"
      by (rule expl[OF Inv_pending_in_steps[OF Cons.prems(1) sp] Inv_pending_enabled[OF Cons.prems(1) sp]])
  qed
  have sub1: "set ps \<subseteq> set (pendingSteps ?st1)" using sub ns by auto
  have eq: "(fold (\<lambda>s. finish s x 0 e) ps ?st1)\<lparr>pendingSteps := filter (\<lambda>t. t \<notin> set ps) (pendingSteps ?st1)\<rparr>
      = (fold (\<lambda>s. finish s x 0 e) (s # ps) st)\<lparr>pendingSteps := filter (\<lambda>t. t \<notin> set (s # ps)) (pendingSteps st)\<rparr>"
  proof -
    let ?f = "\<lambda>s. finish s x 0 e"
    have a: "fold ?f ps ?st1 = (fold ?f ps (finish s x 0 e st))\<lparr>pendingSteps := removeAll s (pendingSteps st)\<rparr>"
      by (simp only: deletePending_def finish_pending_commute finish_fields)
    have b: "filter (\<lambda>t. t \<notin> set ps) (pendingSteps ?st1) = filter (\<lambda>t. t \<notin> set (s # ps)) (pendingSteps st)"
      by (simp only: deletePending_fields finish_fields filter_removeAll_notin)
    have c: "Y\<lparr>pendingSteps := p1\<rparr>\<lparr>pendingSteps := p2\<rparr> = Y\<lparr>pendingSteps := p2\<rparr>" for Y :: sched and p1 p2
      by simp
    show ?thesis by (simp only: a b c fold_simps)
  qed
  from Cons.IH[OF i dps sub1] show ?case unfolding eq .
qed

lemma Inv_mono: "Inv w steps False st \<Longrightarrow> Inv w steps fin st"
  unfolding Inv_def using explained_stable[where fin = False and fin' = fin and m = "statusById st" and m' = "statusById st"]
  by (simp add: stable_def)

lemma Inv_Final:
  assumes inv: "Inv w steps fin st" and p: "pendingSteps st = []"
      and r: "\<forall>kp\<in>set (runningPromises st). isSettled (snd kp)"
  shows "Final w steps (statusById st) (results st)"
proof -
  have cov: "\<forall>s\<in>set steps. ident s \<in> stepId ` set (results st) \<or> lost (statusById st) s"
  proof
    fix s assume s: "s \<in> set steps"
    from inv s have "s \<in> set (pendingSteps st) \<or>
        (\<exists>out. (ident s, InFlight s out) \<in> set (runningPromises st)) \<or>
        ident s \<in> stepId ` set (results st) \<or> lost (statusById st) s" unfolding Inv_def by blast
    moreover have "\<not> (\<exists>out. (ident s, InFlight s out) \<in> set (runningPromises st))"
      using r by (force simp: isSettled_def)
    ultimately show "ident s \<in> stepId ` set (results st) \<or> lost (statusById st) s" using p by simp
  qed
  have sub: "stepId ` set (results st) \<subseteq> ident ` set steps"
  proof
    fix i assume "i \<in> stepId ` set (results st)"
    then obtain q where q: "q \<in> set (results st)" "i = stepId q" by auto
    from Inv_result_status[OF inv q(1)] have "i \<in> dom (statusById st)" using q(2) by auto
    with inv show "i \<in> ident ` set steps" unfolding Inv_def by blast
  qed
  have ex: "\<forall>q\<in>set (results st). statusById st (stepId q) = Some (status q) \<and> terminal (status q) \<and>
      explained w steps (statusById st) True q"
  proof
    fix q assume q: "q \<in> set (results st)"
    with inv have "explained w steps (statusById st) fin q" unfolding Inv_def by blast
    then have "explained w steps (statusById st) True q"
      by (rule explained_stable) (simp_all add: stable_def)
    with Inv_result_status[OF inv q] show "statusById st (stepId q) = Some (status q) \<and> terminal (status q) \<and>
      explained w steps (statusById st) True q" by simp
  qed
  from inv have "distinct (map stepId (results st))" "dom (statusById st) \<subseteq> ident ` set steps"
    unfolding Inv_def by blast+
  with cov sub ex show ?thesis unfolding Final_def by blast
qed

lemma cancelPending_Inv:
  assumes inv: "Inv w steps fin st" and c: "shouldCancel w n"
  shows "Inv w steps True (cancelPending st)"
proof -
  have i: "Inv w steps True st"
    using inv unfolding Inv_def
    using explained_stable[where fin = fin and fin' = True and m = "statusById st" and m' = "statusById st"]
    by (simp add: stable_def)
  have "Inv w steps True ((fold (\<lambda>s. finish s S_skipped 0 (Some ''Cancelled'')) (pendingSteps st) st)
      \<lparr>pendingSteps := filter (\<lambda>t. t \<notin> set (pendingSteps st)) (pendingSteps st)\<rparr>)"
  proof (rule finishAll_Inv[OF _ _ i Inv_pending_distinct[OF i] subset_refl])
    show "terminal S_skipped" by (simp add: terminal_def)
    show "explained w steps m True (mkResult s S_skipped 0 (Some ''Cancelled''))"
      if "s \<in> set steps" "enabled s" for s m
      unfolding explained_def using that c by blast
  qed
  then show ?thesis by (simp add: cancelPending_def)
qed

lemma markDeadlock_Inv:
  assumes inv: "Inv w steps fin st" and c: "\<not> depsCovered {} steps \<or> \<not> readableErrors steps"
  shows "Inv w steps True ((markDeadlock st)\<lparr>pendingSteps := []\<rparr>)"
proof -
  have i: "Inv w steps True st"
    using inv unfolding Inv_def
    using explained_stable[where fin = fin and fin' = True and m = "statusById st" and m' = "statusById st"]
    by (simp add: stable_def)
  have "Inv w steps True ((fold (\<lambda>s. finish s S_error 0 (Some ''Deadlock: dependencies never met'')) (pendingSteps st) st)
      \<lparr>pendingSteps := filter (\<lambda>t. t \<notin> set (pendingSteps st)) (pendingSteps st)\<rparr>)"
  proof (rule finishAll_Inv[OF _ _ i Inv_pending_distinct[OF i] subset_refl])
    show "terminal S_error" by (simp add: terminal_def)
    show "explained w steps m True (mkResult s S_error 0 (Some ''Deadlock: dependencies never met''))"
      if "s \<in> set steps" "enabled s" for s m
      unfolding explained_def using that c by blast
  qed
  then show ?thesis by (simp add: markDeadlock_def)
qed

lemma depsCovered_mono: "depsCovered seen ps \<Longrightarrow> seen \<subseteq> seen' \<Longrightarrow> depsCovered seen' ps"
proof (induction ps arbitrary: seen seen')
  case Nil
  then show ?case by simp
next
  case (Cons s ps)
  from Cons.prems have "depsCovered (insert (ident s) seen) ps" "insert (ident s) seen \<subseteq> insert (ident s) seen'"
    by auto
  from Cons.IH[OF this] Cons.prems show ?case by auto
qed

lemma depsCovered_filter:
  "depsCovered seen steps \<Longrightarrow> seen \<subseteq> T \<Longrightarrow> (\<forall>s\<in>set steps. \<not> P s \<longrightarrow> ident s \<in> T) \<Longrightarrow>
   depsCovered T (filter P steps)"
proof (induction steps arbitrary: seen T)
  case Nil
  then show ?case by simp
next
  case (Cons s steps)
  from Cons.prems(1) have d: "set (deps s) \<subseteq> seen" and c: "depsCovered (insert (ident s) seen) steps" by auto
  show ?case
  proof (cases "P s")
    case True
    have "depsCovered (insert (ident s) T) (filter P steps)"
      by (rule Cons.IH[OF c]) (use Cons.prems in auto)
    with True d Cons.prems(2) show ?thesis by auto
  next
    case False
    have "depsCovered T (filter P steps)"
      by (rule Cons.IH[OF c]) (use Cons.prems False in auto)
    with False show ?thesis by simp
  qed
qed

lemma findReady_ready_extends: "findReady ps st rd = (st', rd') \<Longrightarrow> \<exists>xs. rd' = rd @ xs"
proof (induction ps st rd rule: findReady.induct)
  case (1 st readySteps)
  then show ?case by simp
next
  case (2 step rest st readySteps)
  then show ?case by (auto split: if_splits)
qed

lemma findReady_none_ready:
  "Inv w steps fin st \<Longrightarrow> distinct ps \<Longrightarrow> set ps \<subseteq> set (pendingSteps st) \<Longrightarrow>
   depsCovered (termIds st) ps \<Longrightarrow> findReady ps st rd = (st', []) \<Longrightarrow>
   pendingSteps st' = filter (\<lambda>t. t \<notin> set ps) (pendingSteps st)"
proof (induction ps st rd rule: findReady.induct)
  case (1 st readySteps)
  then show ?case by simp
next
  case (2 step rest st readySteps)
  let ?sk = "deletePending step (finish step S_skipped 0 (Some ''Dependency failed'') st)"
  from "2.prems" have sp: "step \<in> set (pendingSteps st)" and dr: "distinct rest" and sr: "step \<notin> set rest"
      and dt: "set (deps step) \<subseteq> termIds st" and cov: "depsCovered (insert (ident step) (termIds st)) rest"
    by auto
  show ?case
  proof (cases "anyDepFailed st (deps step)")
    case True
    have i: "Inv w steps fin ?sk" by (rule skip_Inv[OF "2.prems"(1) sp True])
    have sub: "set rest \<subseteq> set (pendingSteps ?sk)" using "2.prems"(3) sr by auto
    have "insert (ident step) (termIds st) \<subseteq> termIds ?sk"
      using Inv_pending_status[OF "2.prems"(1) sp] by (auto simp: termIds_def terminal_def)
    with cov have cov': "depsCovered (termIds ?sk) rest" by (rule depsCovered_mono)
    from "2.prems"(5) True have fr: "findReady rest ?sk readySteps = (st', [])" by simp
    from "2.IH"(1)[OF True i dr sub cov' fr]
    show ?thesis by (simp add: filter_removeAll_notin)
  next
    case False
    have "allDepsSuccess st (deps step)"
      unfolding allDepsSuccess_iff
    proof
      fix d assume d: "d \<in> set (deps step)"
      with dt obtain x where x: "statusById st d = Some x" "terminal x" by (auto simp: termIds_def)
      with False d show "statusById st d = Some S_success"
        by (auto simp: anyDepFailed_iff terminal_def)
    qed
    with "2.prems"(5) False have "findReady rest st (readySteps @ [step]) = (st', [])" by simp
    from findReady_ready_extends[OF this] show ?thesis by simp
  qed
qed

lemma launch_running_nonempty:
  "rd \<noteq> [] \<or> runningPromises st \<noteq> [] \<Longrightarrow> runningPromises (launch w rd st) \<noteq> []"
proof (induction rd arbitrary: st)
  case Nil
  then show ?case by (simp add: launch_def)
next
  case (Cons s rd)
  have "runningPromises (launchStep w s st) \<noteq> []"
    by (cases "run s") (simp_all add: launchStep_fields update_nonempty)
  from Cons.IH[of "launchStep w s st"] this show ?case by (simp add: launch_def)
qed

lemma no_deadlock:
  assumes inv: "Inv w steps fin st" and ord: "depsCovered {} steps" and re: "readableErrors steps"
      and fr: "findReady (pendingSteps st) st [] = (st1, rd)"
      and r: "runningPromises (launch w rd st1) = []"
  shows "pendingSteps (launch w rd st1) = []"
proof -
  from launch_running_nonempty[of rd st1 w] r have rd: "rd = []" and r1: "runningPromises st1 = []" by auto
  have nl: "\<not> lost (statusById st) s" if "s \<in> set steps" for s
    using that \<open>readableErrors steps\<close> by (auto simp: lost_def readableErrors_def)
  from findReady_Inv[OF inv Inv_pending_distinct[OF inv] subset_refl _ _ fr]
  have "runningPromises st1 = runningPromises st" by (simp add: readyOK_def)
  with r1 have r0: "runningPromises st = []" by simp
  from inv obtain P where P: "pendingSteps st = filter P steps" unfolding Inv_def by blast
  have nt: "\<forall>s\<in>set steps. \<not> P s \<longrightarrow> ident s \<in> termIds st"
  proof (intro ballI impI)
    fix s assume s: "s \<in> set steps" "\<not> P s"
    then have "s \<notin> set (pendingSteps st)" by (simp add: P)
    moreover from inv s(1) have "s \<in> set (pendingSteps st) \<or>
        (\<exists>out. (ident s, InFlight s out) \<in> set (runningPromises st)) \<or>
        ident s \<in> stepId ` set (results st) \<or> lost (statusById st) s" unfolding Inv_def by blast
    ultimately have "ident s \<in> stepId ` set (results st)" using r0 nl[OF s(1)] by simp
    then obtain q where "q \<in> set (results st)" "stepId q = ident s" by auto
    with Inv_result_status[OF inv this(1)] show "ident s \<in> termIds st" by (auto simp: termIds_def)
  qed
  have "depsCovered (termIds st) (filter P steps)"
    by (rule depsCovered_filter[OF ord _ nt]) simp
  then have c: "depsCovered (termIds st) (pendingSteps st)" by (simp add: P)
  from fr rd have "findReady (pendingSteps st) st [] = (st1, [])" by simp
  from findReady_none_ready[OF inv Inv_pending_distinct[OF inv] subset_refl c this]
  have "pendingSteps st1 = []" by simp
  with rd show ?thesis by (simp add: launch_def)
qed

lemma settle_pending: "pendingSteps (settle w q st) = pendingSteps st"
  by (cases q) (simp add: settle_fields)

lemma fold_settle_pending: "pendingSteps (fold (settle w) done st) = pendingSteps st"
  by (induction "done" arbitrary: st) (auto simp: settle_fields)

lemma fold_finish_running: "runningPromises (fold (\<lambda>s. finish s x d e) ps st) = runningPromises st"
  by (induction ps arbitrary: st) auto

lemma tick_Inv:
  assumes inv: "Inv w steps fin st" and fr: "findReady (pendingSteps st) st [] = (st1, rd)"
  shows "Inv w steps fin (launch w rd st1)"
proof -
  from findReady_Inv[OF inv Inv_pending_distinct[OF inv] subset_refl _ _ fr]
  have "Inv w steps fin st1" "readyOK st1 rd" by (simp_all add: readyOK_def)
  then show ?thesis by (rule launch_Inv)
qed

lemma awaitRace_Inv:
  assumes inv: "Inv w steps fin st" and a: "awaitRace w n st = Some (Inr st')"
  shows "Inv w steps fin st'"
proof -
  from a have "st' = fold (settle w) (settledNow w n st) st"
    by (auto simp: awaitRace_def Let_def split: if_splits option.splits list.splits)
  with settleAll_Inv[OF inv settledNow_inFlightAll[OF inv]] show ?thesis by simp
qed

lemma schedule_Final_aux:
  assumes "schedule w n st = Some out"
  shows "\<forall>rs. out = Inr rs \<longrightarrow> Inv w steps False st \<longrightarrow> (\<exists>m. Final w steps m rs)"
  using assms
proof (rule schedule.raw_induct[rotated 1, where P = "\<lambda>w n st out.
    \<forall>rs. out = Inr rs \<longrightarrow> Inv w steps False st \<longrightarrow> (\<exists>m. Final w steps m rs)"], goal_cases)
  case (1 sch w n st out)
  show ?case
  proof (intro allI impI)
    fix rs assume out: "out = Inr rs" and inv: "Inv w steps False st"
    note run = 1(2)[unfolded out]
    show "\<exists>m. Final w steps m rs"
    proof (cases "pendingSteps st = [] \<and> runningPromises st = []")
      case True
      with run have rs: "rs = results st" by simp
      from Inv_Final[OF inv] True show ?thesis unfolding rs by auto
    next
      case notdone: False
      show ?thesis
      proof (cases "shouldCancel w n")
        case True
        let ?st1 = "cancelPending st"
        have i1: "Inv w steps True ?st1" by (rule cancelPending_Inv[OF inv True])
        have p1: "pendingSteps ?st1 = []" by (simp add: cancelPending_def)
        show ?thesis
        proof (cases "runningPromises ?st1 = []")
          case True
          with run notdone \<open>shouldCancel w n\<close> have rs: "rs = results ?st1" by (simp add: Let_def)
          from Inv_Final[OF i1 p1] True show ?thesis unfolding rs by auto
        next
          case False
          with run notdone \<open>shouldCancel w n\<close>
          have "map_option (\<lambda>st2. Inr (results st2)) (awaitAllSettled w n ?st1) = Some (Inr rs)"
            by (simp add: Let_def)
          then obtain st2 where a: "awaitAllSettled w n ?st1 = Some st2" and rs: "rs = results st2" by auto
          from a have st2: "st2 = fold (settle w) (settledNow w n ?st1) ?st1"
              and all: "list_all (\<lambda>kp. isSettled (snd kp)) (runningPromises st2)"
            by (auto simp: awaitAllSettled_def Let_def split: if_splits)
          have i2: "Inv w steps True st2"
            unfolding st2 by (rule settleAll_Inv[OF i1 settledNow_inFlightAll[OF i1]])
          have p2: "pendingSteps st2 = []" unfolding st2 by (simp add: fold_settle_pending p1)
          from Inv_Final[OF i2 p2] all show ?thesis unfolding rs by (auto simp: list_all_iff)
        qed
      next
        case nocancel: False
        obtain st1 rd where fr: "findReady (pendingSteps st) st [] = (st1, rd)" by force
        let ?st2 = "launch w rd st1"
        have i2: "Inv w steps False ?st2" by (rule tick_Inv[OF inv fr])
        from run notdone nocancel fr
        have body: "(if runningPromises ?st2 = [] \<and> pendingSteps ?st2 \<noteq> []
            then Some (Inr (results (markDeadlock ?st2)))
            else if runningPromises ?st2 = [] \<and> pendingSteps ?st2 = [] then Some (Inr (results ?st2))
            else (case awaitRace w n ?st2 of None \<Rightarrow> None | Some (Inl e) \<Rightarrow> Some (Inl e)
                  | Some (Inr st3) \<Rightarrow> sch w (Suc n) st3)) = Some (Inr rs)"
          by (simp add: Let_def)
        show ?thesis
        proof (cases "runningPromises ?st2 = []")
          case True
          show ?thesis
          proof (cases "pendingSteps ?st2 = []")
            case pe: True
            with body True have rs: "rs = results ?st2" by simp
            from Inv_Final[OF i2 pe] True show ?thesis unfolding rs by auto
          next
            case False
            with body True have rs: "rs = results (markDeadlock ?st2)" by simp
            from no_deadlock[OF inv _ _ fr True] False
            have nc: "\<not> depsCovered {} steps \<or> \<not> readableErrors steps" by blast
            let ?f = "(markDeadlock ?st2)\<lparr>pendingSteps := []\<rparr>"
            have i: "Inv w steps True ?f" by (rule markDeadlock_Inv[OF i2 nc])
            have "runningPromises ?f = []" using True by (simp add: markDeadlock_def fold_finish_running)
            with Inv_Final[OF i] have "Final w steps (statusById ?f) (results ?f)" by simp
            then show ?thesis unfolding rs by auto
          qed
        next
          case False
          with body obtain st3 where a: "awaitRace w n ?st2 = Some (Inr st3)"
              and rec: "sch w (Suc n) st3 = Some (Inr rs)"
            by (auto split: option.splits sum.splits)
          have "Inv w steps False st3" by (rule awaitRace_Inv[OF i2 a])
          with 1(1)[OF rec] show ?thesis by simp
        qed
      qed
    qed
  qed
qed

lemma markDisabled_char:
  "distinct (map ident (done @ rest)) \<Longrightarrow>
   pendingSteps st = filter enabled done @ rest \<Longrightarrow>
   results st = map (\<lambda>s. mkResult s S_skipped 0 None) (filter (\<lambda>s. \<not> enabled s) done) \<Longrightarrow>
   statusById st = (\<lambda>i. map_option (\<lambda>s. if enabled s then S_pending else S_skipped) (find (\<lambda>s. ident s = i) done)) \<Longrightarrow>
   runningPromises st = [] \<Longrightarrow>
   pendingSteps (markDisabled rest st) = filter enabled (done @ rest) \<and>
   results (markDisabled rest st) = map (\<lambda>s. mkResult s S_skipped 0 None) (filter (\<lambda>s. \<not> enabled s) (done @ rest)) \<and>
   statusById (markDisabled rest st) =
     (\<lambda>i. map_option (\<lambda>s. if enabled s then S_pending else S_skipped) (find (\<lambda>s. ident s = i) (done @ rest))) \<and>
   runningPromises (markDisabled rest st) = []"
proof (induction rest arbitrary: "done" st)
  case Nil
  then show ?case by simp
next
  case (Cons s rest)
  let ?st1 = "if \<not> enabled s then deletePending s (finish s S_skipped 0 None st)
              else st\<lparr>statusById := (statusById st)(ident s \<mapsto> S_pending)\<rparr>"
  from Cons.prems(1) have fresh: "ident s \<notin> ident ` set done" "ident s \<notin> ident ` set rest" by auto
  then have sn: "s \<notin> set done" "s \<notin> set rest" by auto
  have d: "distinct (map ident ((done @ [s]) @ rest))" using Cons.prems(1) by simp
  have p: "pendingSteps ?st1 = filter enabled (done @ [s]) @ rest"
    using Cons.prems(2) sn by (auto simp: removeAll_id)
  have r: "results ?st1 = map (\<lambda>s. mkResult s S_skipped 0 None) (filter (\<lambda>s. \<not> enabled s) (done @ [s]))"
    using Cons.prems(3) by auto
  have fnd: "find (\<lambda>t. ident t = i) (done @ [s]) =
      (if i = ident s then Some s else find (\<lambda>t. ident t = i) done)" for i
    using fresh(1) by (induction "done") auto
  have m: "statusById ?st1 =
      (\<lambda>i. map_option (\<lambda>s. if enabled s then S_pending else S_skipped) (find (\<lambda>s. ident s = i) (done @ [s])))"
    unfolding fnd using Cons.prems(4) by (auto simp: fun_eq_iff)
  have ru: "runningPromises ?st1 = []" using Cons.prems(5) by simp
  from Cons.IH[OF d p r m ru] show ?case by simp
qed

lemma find_ident: "distinct (map ident steps) \<Longrightarrow> s \<in> set steps \<Longrightarrow> find (\<lambda>t. ident t = ident s) steps = Some s"
  by (induction steps) force+

lemma initial_Inv:
  assumes d: "distinct (map ident steps)"
  shows "Inv w steps False (markDisabled steps (initial steps))"
proof -
  let ?st = "markDisabled steps (initial steps)"
  from markDisabled_char[of "[]" steps "initial steps"] d
  have p: "pendingSteps ?st = filter enabled steps"
    and r: "results ?st = map (\<lambda>s. mkResult s S_skipped 0 None) (filter (\<lambda>s. \<not> enabled s) steps)"
    and m: "statusById ?st = (\<lambda>i. map_option (\<lambda>s. if enabled s then S_pending else S_skipped) (find (\<lambda>s. ident s = i) steps))"
    and ru: "runningPromises ?st = []"
    by (simp_all add: initial_def)
  have st: "statusById ?st (ident s) = Some (if enabled s then S_pending else S_skipped)" if "s \<in> set steps" for s
    by (simp add: m find_ident[OF d that])
  have c2: "\<exists>P. pendingSteps ?st = filter P steps" using p by blast
  have c3: "\<forall>s\<in>set (pendingSteps ?st). enabled s \<and> statusById ?st (ident s) = Some S_pending"
    using st by (auto simp: p)
  have c7: "distinct (map stepId (results ?st))"
    using d by (simp add: r comp_def distinct_map_filter)
  have c8: "\<forall>q\<in>set (results ?st). statusById ?st (stepId q) = Some (status q) \<and> terminal (status q) \<and>
      explained w steps (statusById ?st) False q"
    using st by (auto simp: r terminal_def explained_def)
  have c9: "\<forall>s\<in>set steps. s \<in> set (pendingSteps ?st) \<or>
      (\<exists>out. (ident s, InFlight s out) \<in> set (runningPromises ?st)) \<or> ident s \<in> stepId ` set (results ?st) \<or>
      lost (statusById ?st) s"
    by (auto simp: p r image_iff)
  have c10: "dom (statusById ?st) \<subseteq> ident ` set steps"
    by (auto simp: m dest!: find_Some_iff[THEN iffD1])
  show ?thesis unfolding Inv_def using d c2 c3 c7 c8 c9 c10 by (simp add: ru)
qed

lemma runWorkflow_Final:
  "runWorkflow w steps = Some (Inr rs) \<Longrightarrow> distinct (map ident steps) \<Longrightarrow> \<exists>m. Final w steps m rs"
  unfolding runWorkflow_def using schedule_Final_aux initial_Inv by blast

lemma fold_settle_running:
  "runningPromises (fold (settle w) done st) =
     filter (\<lambda>kp. fst kp \<notin> set (map (ident \<circ> fst) done)) (runningPromises st)"
proof (induction "done" arbitrary: st)
  case Nil
  show ?case by simp
next
  case (Cons p rest)
  obtain s out where p: "p = (s, out)" by (cases p)
  have "AList.delete k ps = filter (\<lambda>kp. fst kp \<noteq> k) ps" for k and ps :: "(string \<times> promise) list"
    by (induction ps) auto
  then show ?case by (simp add: Cons.IH p settle_fields conj_commute)
qed

lemma settledNow_mem:
  assumes inv: "Inv w steps fin st" and e: "(k, InFlight s out) \<in> set (runningPromises st)"
      and k: "k \<in> set (settled w n (map fst (runningPromises st)))"
  shows "(s, out) \<in> set (settledNow w n st) \<and> ident s = k"
proof -
  from inv have d: "distinct (map fst (runningPromises st))" by (simp add: Inv_def)
  from map_of_is_SomeI[OF d e] have "inFlightOf st k = Some (s, out)" by (simp add: inFlightOf_def)
  with k have "(s, out) \<in> set (settledNow w n st)"
    by (force simp: settledNow_def List.map_filter_def)
  moreover from inv e have "k = ident s" unfolding Inv_def by blast
  ultimately show ?thesis by simp
qed

lemma findReady_pending_length:
  "findReady ps st rd = (st', rd') \<Longrightarrow> length (pendingSteps st') \<le> length (pendingSteps st)"
proof (induction ps st rd rule: findReady.induct)
  case (1 st readySteps)
  then show ?case by simp
next
  case (2 step rest st readySteps)
  have "length (removeAll step (pendingSteps st)) \<le> length (pendingSteps st)"
    by (simp add: removeAll_filter_not_eq)
  with 2 show ?case by (auto split: if_splits intro: le_trans)
qed

lemma launch_measure:
  "Inv w steps fin st \<Longrightarrow> readyOK st rd \<Longrightarrow>
   length (pendingSteps (launch w rd st)) + length (runningPromises (launch w rd st))
     = length (pendingSteps st) + length (runningPromises st)"
proof (induction rd arbitrary: st)
  case Nil
  then show ?case by (simp add: launch_def)
next
  case (Cons s rd)
  from Cons.prems(2) have sp: "s \<in> set (pendingSteps st)"
      and ok: "\<forall>d\<in>set (deps s). statusById st d = Some S_success" and ns: "s \<notin> set rd"
      and rd: "readyOK st rd"
    by (auto simp: readyOK_def)
  have i: "Inv w steps fin (launchStep w s st)"
    by (rule launchStep_Inv[OF Cons.prems(1) sp ok])
  have "\<exists>x. statusById (launchStep w s st) = (statusById st)(ident s \<mapsto> x)"
    by (cases "run s") (auto simp: launchStep_fields)
  then obtain x where m': "statusById (launchStep w s st) = (statusById st)(ident s \<mapsto> x)" ..
  have r: "readyOK (launchStep w s st) rd"
    by (rule readyOK_skip[OF Cons.prems(1) sp rd ns m']) (simp add: launchStep_fields)
  have "length (removeAll s (pendingSteps st)) = length (pendingSteps st) - 1"
    using Inv_pending_distinct[OF Cons.prems(1)] sp
    by (simp add: distinct_remove1_removeAll[symmetric] length_remove1)
  moreover have "length (pendingSteps st) > 0" using sp by (cases "pendingSteps st") auto
  moreover have "length (runningPromises (launchStep w s st)) = length (runningPromises st) + 1"
    using Inv_pending_not_running[OF Cons.prems(1) sp]
    by (cases "run s") (simp_all add: launchStep_fields update_fresh delete_fresh)
  ultimately have "length (pendingSteps (launchStep w s st)) + length (runningPromises (launchStep w s st))
     = length (pendingSteps st) + length (runningPromises st)"
    by (simp add: launchStep_fields)
  with Cons.IH[OF i r] show ?case by (simp add: launch_def)
qed

lemma launch_noStale:
  "Inv w steps fin st \<Longrightarrow> readyOK st rd \<Longrightarrow> asyncBodies steps \<Longrightarrow> noStale st \<Longrightarrow> noStale (launch w rd st)"
proof (induction rd arbitrary: st)
  case Nil
  then show ?case by (simp add: launch_def)
next
  case (Cons s rd)
  from Cons.prems(2) have sp: "s \<in> set (pendingSteps st)"
      and ok: "\<forall>d\<in>set (deps s). statusById st d = Some S_success" and ns: "s \<notin> set rd"
      and rd: "readyOK st rd"
    by (auto simp: readyOK_def)
  have i: "Inv w steps fin (launchStep w s st)"
    by (rule launchStep_Inv[OF Cons.prems(1) sp ok])
  from Cons.prems(3) Inv_pending_in_steps[OF Cons.prems(1) sp] Inv_pending_enabled[OF Cons.prems(1) sp]
  obtain out where out: "run s = Async out" unfolding asyncBodies_def by blast
  have m': "statusById (launchStep w s st) = (statusById st)(ident s \<mapsto> S_running)"
    by (simp add: launchStep_fields(3)[OF out])
  have r: "readyOK (launchStep w s st) rd"
    by (rule readyOK_skip[OF Cons.prems(1) sp rd ns m']) (simp add: launchStep_fields)
  have "noStale (launchStep w s st)"
    using Cons.prems(4) Inv_pending_not_running[OF Cons.prems(1) sp]
    by (auto simp: noStale_def launchStep_fields(4)[OF out] update_fresh isSettled_def)
  from Cons.IH[OF i r Cons.prems(3) this] show ?case by (simp add: launch_def)
qed

lemma awaitAllSettled_Some:
  assumes inv: "Inv w steps fin st" and l: "live w" and c: "shouldCancel w n"
  shows "\<exists>st'. awaitAllSettled w n st = Some st'"
proof -
  let ?st1 = "fold (settle w) (settledNow w n st) st"
  have "isSettled (snd kp)" if kp: "kp \<in> set (runningPromises ?st1)" for kp
  proof (cases "snd kp")
    case Settled
    then show ?thesis by (simp add: isSettled_def)
  next
    case Failed
    then show ?thesis by (simp add: isSettled_def)
  next
    case (InFlight s out)
    from kp have mem: "kp \<in> set (runningPromises st)"
        and notin: "fst kp \<notin> set (map (ident \<circ> fst) (settledNow w n st))"
      by (simp_all add: fold_settle_running)
    from mem InFlight have e: "(fst kp, InFlight s out) \<in> set (runningPromises st)"
      by (metis prod.collapse)
    from mem have ne: "map fst (runningPromises st) \<noteq> []" by auto
    from l c ne have "set (map fst (runningPromises st)) \<subseteq> set (settled w n (map fst (runningPromises st)))"
      unfolding live_def by metis
    with mem have "fst kp \<in> set (settled w n (map fst (runningPromises st)))" by auto
    from settledNow_mem[OF inv e this] notin show ?thesis by force
  qed
  then show ?thesis by (simp add: awaitAllSettled_def Let_def list_all_iff)
qed

lemma awaitRace_Some:
  assumes inv: "Inv w steps fin st" and l: "live w" and c: "\<not> shouldCancel w n"
      and ns: "noStale st" and ne: "runningPromises st \<noteq> []" and re: "readableErrors steps"
  shows "\<exists>st'. awaitRace w n st = Some (Inr st') \<and> pendingSteps st' = pendingSteps st \<and>
           length (runningPromises st') < length (runningPromises st) \<and> noStale st'"
proof -
  let ?st1 = "fold (settle w) (settledNow w n st) st"
  from ne have "map fst (runningPromises st) \<noteq> []" by simp
  with l c obtain i where i: "i \<in> set (map fst (runningPromises st))"
      "i \<in> set (settled w n (map fst (runningPromises st)))"
    unfolding live_def by metis
  from i(1) obtain p where p: "(i, p) \<in> set (runningPromises st)" by auto
  with ns obtain s out where "p = InFlight s out" by (cases p) (auto simp: noStale_def isSettled_def)
  with p have e: "(i, InFlight s out) \<in> set (runningPromises st)" by simp
  from settledNow_mem[OF inv e i(2)] have m: "(s, out) \<in> set (settledNow w n st)" "ident s = i" by simp_all
  then obtain q rest where d: "settledNow w n st = q # rest" by (cases "settledNow w n st") auto
  have "(i, InFlight s out) \<notin> set (runningPromises ?st1)"
    using m by (force simp: fold_settle_running)
  with e have "length (runningPromises ?st1) < length (runningPromises st)"
    unfolding fold_settle_running
    by (metis (no_types, lifting) filter_True length_filter_le order_le_neq_trans length_filter_less)
  moreover have "noStale ?st1" using ns by (auto simp: noStale_def fold_settle_running)
  moreover have "find (\<lambda>kp. isSettled (snd kp)) (runningPromises st) = None"
    using ns by (auto simp: noStale_def find_None_iff)
  moreover have "snd q \<noteq> RejectedNullish"
  proof
    assume rn: "snd q = RejectedNullish"
    from settledNow_inFlightAll[OF inv, of n] d
    have "(ident (fst q), InFlight (fst q) (snd q)) \<in> set (runningPromises st)"
      by (simp add: inFlightAll_def)
    with inv rn have "fst q \<in> set steps" "run (fst q) = Async RejectedNullish" "enabled (fst q)"
      unfolding Inv_def by (metis)+
    with re show False by (auto simp: readableErrors_def nullish_def)
  qed
  ultimately show ?thesis using d by (simp add: awaitRace_def Let_def fold_settle_pending settle_pending)
qed

lemma schedule_returns:
  assumes l: "live w" and a: "asyncBodies steps" and re: "readableErrors steps"
  shows "Inv w steps False st \<Longrightarrow> noStale st \<Longrightarrow> \<exists>rs. schedule w n st = Some (Inr rs)"
proof (induction "length (pendingSteps st) + length (runningPromises st)" arbitrary: st n rule: less_induct)
  case less
  note inv = less.prems(1)
  show ?case
  proof (cases "pendingSteps st = [] \<and> runningPromises st = []")
    case True
    then show ?thesis by (subst schedule.simps) simp
  next
    case notdone: False
    show ?thesis
    proof (cases "shouldCancel w n")
      case True
      have i1: "Inv w steps True (cancelPending st)" by (rule cancelPending_Inv[OF inv True])
      from awaitAllSettled_Some[OF i1 l True] obtain st' where "awaitAllSettled w n (cancelPending st) = Some st'" ..
      with notdone True show ?thesis by (subst schedule.simps) (simp add: Let_def)
    next
      case nocancel: False
      obtain st1 rd where fr: "findReady (pendingSteps st) st [] = (st1, rd)" by force
      let ?st2 = "launch w rd st1"
      from findReady_Inv[OF inv Inv_pending_distinct[OF inv] subset_refl _ _ fr]
      have i1: "Inv w steps False st1" and ro: "readyOK st1 rd" and r1: "runningPromises st1 = runningPromises st"
        by (simp_all add: readyOK_def)
      have i2: "Inv w steps False ?st2" by (rule launch_Inv[OF i1 ro])
      have ns1: "noStale st1" using less.prems(2) r1 by (simp add: noStale_def)
      have ns2: "noStale ?st2" by (rule launch_noStale[OF i1 ro a ns1])
      have le: "length (pendingSteps ?st2) + length (runningPromises ?st2)
          \<le> length (pendingSteps st) + length (runningPromises st)"
        using launch_measure[OF i1 ro] findReady_pending_length[OF fr] r1 by simp
      show ?thesis
      proof (cases "runningPromises ?st2 = []")
        case True
        with notdone nocancel fr show ?thesis by (subst schedule.simps) (simp add: Let_def)
      next
        case False
        from awaitRace_Some[OF i2 l nocancel ns2 False re] obtain st3 where
          a3: "awaitRace w n ?st2 = Some (Inr st3)" and p3: "pendingSteps st3 = pendingSteps ?st2"
          and l3: "length (runningPromises st3) < length (runningPromises ?st2)" and ns3: "noStale st3"
          by blast
        have i3: "Inv w steps False st3" by (rule awaitRace_Inv[OF i2 a3])
        from le p3 l3 have "length (pendingSteps st3) + length (runningPromises st3)
            < length (pendingSteps st) + length (runningPromises st)" by simp
        from less.hyps[OF this i3 ns3] obtain rs where "schedule w (Suc n) st3 = Some (Inr rs)" ..
        with notdone nocancel fr False a3 show ?thesis by (subst schedule.simps) (simp add: Let_def)
      qed
    qed
  qed
qed

lemma runWorkflow_returns:
  assumes "distinct (map ident steps)" "live w" "asyncBodies steps" "readableErrors steps"
  shows "\<exists>rs. runWorkflow w steps = Some (Inr rs)"
proof -
  have "runningPromises (markDisabled steps (initial steps)) = []"
    using markDisabled_char[of "[]" steps "initial steps"] assms(1) by (simp add: initial_def)
  then have "noStale (markDisabled steps (initial steps))" by (simp add: noStale_def)
  from schedule_returns[OF assms(2,3,4) initial_Inv[OF assms(1)] this]
  show ?thesis by (simp add: runWorkflow_def)
qed

lemma filter_single:
  "distinct (map f xs) \<Longrightarrow> x \<in> set xs \<Longrightarrow> filter (\<lambda>y. f y = f x) xs = [x]"
proof (induction xs)
  case Nil
  then show ?case by simp
next
  case (Cons a xs)
  show ?case
  proof (cases "a = x")
    case True
    with Cons.prems have "filter (\<lambda>y. f y = f x) xs = []"
      by (auto simp: filter_empty_conv image_iff)
    with True show ?thesis by simp
  next
    case False
    with Cons.prems have "x \<in> set xs" "f a \<noteq> f x" by auto
    with Cons show ?thesis by simp
  qed
qed

lemma Final_result_of:
  assumes f: "Final w steps m rs" and s: "s \<in> set steps" and nl: "\<not> lost m s"
  obtains r where "r \<in> set rs" "stepId r = ident s" "filter (\<lambda>q. stepId q = ident s) rs = [r]"
proof -
  from f s nl have "ident s \<in> stepId ` set rs" by (auto simp: Final_def)
  then obtain r where r: "r \<in> set rs" "stepId r = ident s" by auto
  from f have "distinct (map stepId rs)" by (simp add: Final_def)
  from filter_single[OF this r(1)] r(2) have "filter (\<lambda>q. stepId q = ident s) rs = [r]" by simp
  with r that show ?thesis by blast
qed

lemma Final_explained:
  assumes f: "Final w steps m rs" and d: "distinct (map ident steps)"
      and s: "s \<in> set steps" and r: "r \<in> set rs" "stepId r = ident s"
  shows "(\<not> enabled s \<and> r = mkResult s S_skipped 0 None)
      \<or> (enabled s \<and> r = mkResult s S_skipped 0 (Some ''Dependency failed'')
          \<and> (\<exists>d\<in>set (deps s). m d = Some S_error \<or> m d = Some S_skipped))
      \<or> (enabled s \<and> bodyResult w s = Some r \<and> (\<forall>d\<in>set (deps s). m d = Some S_success))
      \<or> (enabled s \<and> r = mkResult s S_skipped 0 (Some ''Cancelled'') \<and> (\<exists>n. shouldCancel w n))
      \<or> (enabled s \<and> r = mkResult s S_error 0 (Some ''Deadlock: dependencies never met'')
          \<and> (\<not> depsCovered {} steps \<or> \<not> readableErrors steps))"
proof -
  from f r(1) have "explained w steps m True r" by (simp add: Final_def)
  then obtain t where t: "t \<in> set steps" and e:
      "(\<not> enabled t \<and> r = mkResult t S_skipped 0 None)
      \<or> (enabled t \<and> r = mkResult t S_skipped 0 (Some ''Dependency failed'')
          \<and> (\<exists>d\<in>set (deps t). m d = Some S_error \<or> m d = Some S_skipped))
      \<or> (enabled t \<and> bodyResult w t = Some r \<and> (\<forall>d\<in>set (deps t). m d = Some S_success))
      \<or> (enabled t \<and> r = mkResult t S_skipped 0 (Some ''Cancelled'') \<and> (\<exists>n. shouldCancel w n))
      \<or> (enabled t \<and> r = mkResult t S_error 0 (Some ''Deadlock: dependencies never met'')
          \<and> (\<not> depsCovered {} steps \<or> \<not> readableErrors steps))"
    unfolding explained_def by auto
  from e have "stepId r = ident t" by (auto dest: bodyResult_SomeD)
  with r(2) have "ident t = ident s" by simp
  with ident_inj[OF d t s] have "t = s" by simp
  with e show ?thesis by simp
qed

lemma Final_status_of_id:
  assumes f: "Final w steps m rs" and x: "m i = Some x" and t: "terminal x"
  shows "\<exists>q\<in>set rs. stepId q = i \<and> status q = x"
proof -
  from f x have "i \<in> ident ` set steps" by (auto simp: Final_def)
  then obtain s where s: "s \<in> set steps" "i = ident s" by auto
  from x t s(2) have "\<not> lost m s" by (auto simp: lost_def terminal_def)
  with f s have "i \<in> stepId ` set rs" by (auto simp: Final_def)
  then obtain q where q: "q \<in> set rs" "stepId q = i" by auto
  with f have "m i = Some (status q)" by (auto simp: Final_def)
  with x q show ?thesis by auto
qed

lemma stale_never_returns:
  assumes "schedule w n st = Some out"
  shows "\<not> (pendingSteps st = [] \<and> runningPromises st = [(k, Settled)] \<and> (\<forall>j. \<not> shouldCancel w j))"
  using assms
proof (rule schedule.raw_induct[rotated 1, where P = "\<lambda>w n st rs.
      \<not> (pendingSteps st = [] \<and> runningPromises st = [(k, Settled)] \<and> (\<forall>j. \<not> shouldCancel w j))"], goal_cases)
  case (1 sch w n st out)
  show ?case
  proof
    assume a: "pendingSteps st = [] \<and> runningPromises st = [(k, Settled)] \<and> (\<forall>j. \<not> shouldCancel w j)"
    have "inFlightOf st i = None" for i
      using a by (simp add: inFlightOf_def)
    then have "settledNow w n st = []"
      by (simp add: settledNow_def List.map_filter_def)
    with a have "awaitRace w n st = Some (Inr st)"
      by (simp add: awaitRace_def isSettled_def)
    with 1(2) a have "sch w (Suc n) st = Some out"
      by (simp add: launch_def)
    from 1(1)[OF this] a show False by simp
  qed
qed

lemma mutual_dependency_deadlock:
  assumes "\<not> shouldCancel w 0" and "enabled a" and "enabled b" and "ident a \<noteq> ident b"
      and "deps a = [ident b]" and "deps b = [ident a]"
  shows "runWorkflow w [a, b] =
           Some (Inr [mkResult a S_error 0 (Some ''Deadlock: dependencies never met''),
                      mkResult b S_error 0 (Some ''Deadlock: dependencies never met'')])"
proof -
  define st0 where "st0 = \<lparr>results = [], statusById = [ident a \<mapsto> S_pending, ident b \<mapsto> S_pending],
      runningPromises = [], pendingSteps = [a, b]\<rparr>"
  have init: "markDisabled [a, b] (initial [a, b]) = st0"
    using assms(2,3) by (simp add: initial_def st0_def)
  have fr: "findReady (pendingSteps st0) st0 [] = (st0, [])"
    using assms(4,5,6) by (simp add: st0_def anyDepFailed_def allDepsSuccess_def)
  have p0: "pendingSteps st0 \<noteq> []" "runningPromises st0 = []" by (simp_all add: st0_def)
  have "schedule w 0 st0 = Some (Inr (results (markDeadlock st0)))"
    by (subst schedule.simps) (simp add: p0 fr assms(1) launch_def)
  moreover have "results (markDeadlock st0) = [mkResult a S_error 0 (Some ''Deadlock: dependencies never met''),
                 mkResult b S_error 0 (Some ''Deadlock: dependencies never met'')]"
    by (simp add: markDeadlock_def st0_def)
  ultimately show ?thesis unfolding runWorkflow_def init by simp
qed

section \<open>Claims about the workflow scheduler\<close>

lemma pipelineExample_run:
  "runWorkflow promptWorld pipelineExample =
     Some (Inr [\<lparr>stepId = ''open'', r_label = ''open'', status = S_success, error = None,
                  durationMs = 0\<rparr>,
                \<lparr>stepId = ''downloadA'', r_label = ''downloadA'', status = S_success, error = None,
                  durationMs = 0\<rparr>,
                \<lparr>stepId = ''downloadB'', r_label = ''downloadB'', status = S_error,
                  error = Some ''boom'', durationMs = 0\<rparr>,
                \<lparr>stepId = ''merge'', r_label = ''merge'', status = S_skipped,
                  error = Some ''Dependency failed'', durationMs = 0\<rparr>])"
  by code_simp

lemma promptWorld_live: "live promptWorld"
  by (auto simp: live_def promptWorld_def neq_Nil_conv)

text \<open>
  For a list of steps with unique identifiers in which no enabled step throws or rejects
  with \<open>null\<close> or \<open>undefined\<close>: whenever \<open>runWorkflow\<close> returns, the returned list holds
  exactly one result per input step (as many results as steps, no identifier twice, the
  identifiers of the results are those of the steps), and every result has status
  \<open>success\<close>, \<open>error\<close> or \<open>skipped\<close>. The run does return when moreover every wait of the
  scheduler ends and the bodies of the enabled steps are asynchronous.
\<close>

lemma one_result_per_step_for_readable_errors:
  assumes "distinct (map ident steps)" and "readableErrors steps"
  shows "(live w \<and> asyncBodies steps \<longrightarrow> (\<exists>rs. runWorkflow w steps = Some (Inr rs))) \<and>
         (\<forall>rs. runWorkflow w steps = Some (Inr rs) \<longrightarrow>
            length rs = length steps \<and> distinct (map stepId rs) \<and>
            set (map stepId rs) = set (map ident steps) \<and>
            (\<forall>r\<in>set rs. status r = S_success \<or> status r = S_error \<or> status r = S_skipped))"
proof (intro conjI impI allI)
  assume "live w \<and> asyncBodies steps"
  with runWorkflow_returns[OF assms(1) _ _ assms(2)] show "\<exists>rs. runWorkflow w steps = Some (Inr rs)"
    by blast
next
  fix rs assume "runWorkflow w steps = Some (Inr rs)"
  from runWorkflow_Final[OF this assms(1)] obtain m where f: "Final w steps m rs" ..
  have "\<not> lost m t" if "t \<in> set steps" for t
    using that assms(2) by (auto simp: lost_def readableErrors_def)
  with f show d: "distinct (map stepId rs)" and s: "set (map stepId rs) = set (map ident steps)"
    by (auto simp: Final_def)
  from f show "\<forall>r\<in>set rs. status r = S_success \<or> status r = S_error \<or> status r = S_skipped"
    by (simp add: Final_def terminal_def)
  from d s assms have "card (set (map stepId rs)) = length rs" "card (set (map ident steps)) = length steps"
    by (metis distinct_card length_map)+
  with s show "length rs = length steps" by simp
qed

text \<open>
  C1. The claim says that for every list of steps with unique identifiers \<open>runWorkflow\<close>
  returns exactly one result per step. The \<open>catch\<close> block of the wrapper reads
  \<open>(error as Error).message\<close>; when a body rejects with \<open>undefined\<close> or \<open>null\<close> this raises a
  \<open>TypeError\<close> before any status or result is written. For the two independent steps
  \<open>fetch\<close> (fulfilled) and \<open>report\<close> (rejected with \<open>undefined\<close>), both settled when the
  scheduler waits, the run returns the one result of \<open>fetch\<close>: two steps, one result, and
  \<open>report\<close> is left with status \<open>running\<close>. The step \<open>report\<close> alone makes the call reject
  with that \<open>TypeError\<close> instead of returning a list.
\<close>

theorem nullish_rejection_drops_step:
  "distinct (map ident lostStepExample) \<and> length lostStepExample = 2 \<and>
   runWorkflow promptWorld lostStepExample =
     Some (Inr [\<lparr>stepId = ''fetch'', r_label = ''fetch'', status = S_success, error = None,
                  durationMs = 0\<rparr>]) \<and>
   runWorkflow promptWorld [mkStep ''report'' (Async RejectedNullish) []] = Some (Inl TypeError)"
  by code_simp

text \<open>
  C2, as the code has it. The claim says that an enabled step with an unknown identifier
  in \<open>dependsOn\<close> ends \<open>skipped\<close>. An unknown identifier has no entry in \<open>statusById\<close>, so
  it neither fails nor succeeds; a step whose only dependency is unknown stays pending
  until the deadlock branch marks it \<open>error\<close>.
\<close>

theorem unknown_dependency_counterexample:
  "enabled (mkStep ''A'' (Async Fulfilled) [''Z'']) \<and>
   ''Z'' \<in> set (deps (mkStep ''A'' (Async Fulfilled) [''Z''])) \<and>
   ''Z'' \<notin> set (map ident [mkStep ''A'' (Async Fulfilled) [''Z'']]) \<and>
   runWorkflow promptWorld [mkStep ''A'' (Async Fulfilled) [''Z'']] =
     Some (Inr [\<lparr>stepId = ''A'', r_label = ''A'', status = S_error,
                  error = Some ''Deadlock: dependencies never met'', durationMs = 0\<rparr>])"
  by code_simp

text \<open>
  C2, amended. In a run that returns a list, over steps with unique identifiers, an enabled
  step with an unknown identifier in \<open>dependsOn\<close> is never started and has exactly one
  result: \<open>error\<close> with the reason \<open>Deadlock: dependencies never met\<close>; or \<open>skipped\<close> with
  the reason \<open>Dependency failed\<close>, when another of its dependencies ended \<open>error\<close> or
  \<open>skipped\<close>; or \<open>skipped\<close> with the reason \<open>Cancelled\<close>, when cancellation was observed.
\<close>

theorem unknown_dependency_deadlocks_or_skips:
  assumes "runWorkflow w steps = Some (Inr rs)" and "distinct (map ident steps)"
      and "s \<in> set steps" and "enabled s" and "u \<in> set (deps s)" and "u \<notin> ident ` set steps"
  shows "\<exists>r. filter (\<lambda>q. stepId q = ident s) rs = [r] \<and>
           (r = mkResult s S_error 0 (Some ''Deadlock: dependencies never met'')
          \<or> (r = mkResult s S_skipped 0 (Some ''Dependency failed'') \<and>
              (\<exists>q\<in>set rs. stepId q \<in> set (deps s) \<and> (status q = S_error \<or> status q = S_skipped)))
          \<or> (r = mkResult s S_skipped 0 (Some ''Cancelled'') \<and> (\<exists>n. shouldCancel w n)))"
proof -
  from runWorkflow_Final[OF assms(1,2)] obtain m where f: "Final w steps m rs" ..
  from f assms(6) have "m u = None" by (auto simp: Final_def)
  with assms(5) have notran: "\<not> (\<forall>d\<in>set (deps s). m d = Some S_success)" by force
  then have "\<not> lost m s" by (simp add: lost_def)
  from Final_result_of[OF f assms(3) this] obtain r where
    r: "r \<in> set rs" "stepId r = ident s" "filter (\<lambda>q. stepId q = ident s) rs = [r]" .
  have failed: "\<exists>q\<in>set rs. stepId q \<in> set (deps s) \<and> (status q = S_error \<or> status q = S_skipped)"
    if "\<exists>d\<in>set (deps s). m d = Some S_error \<or> m d = Some S_skipped"
  proof -
    from that obtain d x where d: "d \<in> set (deps s)" "m d = Some x" "x = S_error \<or> x = S_skipped" by auto
    then have "terminal x" by (auto simp: terminal_def)
    from Final_status_of_id[OF f d(2) this] d(1,3) show ?thesis by auto
  qed
  from Final_explained[OF f assms(2,3) r(1,2)] assms(4) notran failed r(3)
  show ?thesis by auto
qed

lemma unknownDependencyExample_run:
  "runWorkflow promptWorld
     [mkStep ''X'' (Async (Rejected (Some ''boom''))) [], mkStep ''A'' (Async Fulfilled) [''X'', ''Z'']] =
     Some (Inr [\<lparr>stepId = ''X'', r_label = ''X'', status = S_error, error = Some ''boom'', durationMs = 0\<rparr>,
                \<lparr>stepId = ''A'', r_label = ''A'', status = S_skipped, error = Some ''Dependency failed'',
                   durationMs = 0\<rparr>])"
  by code_simp

theorem unknown_dependency_deadlocks_or_skips_witness:
  "runWorkflow promptWorld
     [mkStep ''X'' (Async (Rejected (Some ''boom''))) [], mkStep ''A'' (Async Fulfilled) [''X'', ''Z'']] =
     Some (Inr [\<lparr>stepId = ''X'', r_label = ''X'', status = S_error, error = Some ''boom'', durationMs = 0\<rparr>,
                \<lparr>stepId = ''A'', r_label = ''A'', status = S_skipped, error = Some ''Dependency failed'',
                   durationMs = 0\<rparr>]) \<and>
   distinct (map ident
     [mkStep ''X'' (Async (Rejected (Some ''boom''))) [], mkStep ''A'' (Async Fulfilled) [''X'', ''Z'']]) \<and>
   enabled (mkStep ''A'' (Async Fulfilled) [''X'', ''Z'']) \<and>
   ''Z'' \<in> set (deps (mkStep ''A'' (Async Fulfilled) [''X'', ''Z''])) \<and>
   ''Z'' \<notin> ident ` set
     [mkStep ''X'' (Async (Rejected (Some ''boom''))) [], mkStep ''A'' (Async Fulfilled) [''X'', ''Z'']] \<and>
   filter (\<lambda>q. stepId q = ''A'')
     [\<lparr>stepId = ''X'', r_label = ''X'', status = S_error, error = Some ''boom'', durationMs = 0\<rparr>,
      \<lparr>stepId = ''A'', r_label = ''A'', status = S_skipped, error = Some ''Dependency failed'',
         durationMs = 0\<rparr>] =
     [mkResult (mkStep ''A'' (Async Fulfilled) [''X'', ''Z'']) S_skipped 0 (Some ''Dependency failed'')]"
proof -
  let ?a = "mkStep ''A'' (Async Fulfilled) [''X'', ''Z'']"
  let ?steps = "[mkStep ''X'' (Async (Rejected (Some ''boom''))) [], ?a]"
  have d: "distinct (map ident ?steps)" by (simp add: mkStep_def)
  have m: "?a \<in> set ?steps" by simp
  have e: "enabled ?a" by (simp add: mkStep_def)
  have u: "''Z'' \<in> set (deps ?a)" by (simp add: deps_def mkStep_def)
  have n: "''Z'' \<notin> ident ` set ?steps" by (simp add: mkStep_def)
  have f: "filter (\<lambda>q. stepId q = ''A'')
     [\<lparr>stepId = ''X'', r_label = ''X'', status = S_error, error = Some ''boom'', durationMs = 0\<rparr>,
      \<lparr>stepId = ''A'', r_label = ''A'', status = S_skipped, error = Some ''Dependency failed'',
         durationMs = 0\<rparr>] =
     [mkResult ?a S_skipped 0 (Some ''Dependency failed'')]"
    by (simp add: mkStep_def mkResult_def)
  from unknown_dependency_deadlocks_or_skips[OF unknownDependencyExample_run d m e u n]
  show ?thesis using unknownDependencyExample_run d e u n f by blast
qed

text \<open>
  In a run that returns, over steps with unique identifiers: if \<open>B\<close> depends on \<open>A\<close> directly
  or through a chain of \<open>dependsOn\<close> edges and \<open>A\<close> ended \<open>error\<close> or \<open>skipped\<close>, then \<open>B\<close> was
  never started and ended \<open>skipped\<close>, or it was marked \<open>error\<close> by the deadlock branch
  (reason \<open>Deadlock: dependencies never met\<close>, duration 0); the latter needs a list that
  is not in dependency order, or a lost step.
\<close>

lemma dependents_of_failed_step:
  assumes "runWorkflow w steps = Some (Inr rs)" and "distinct (map ident steps)"
      and "(b, a) \<in> (dependsRel steps)\<^sup>+"
      and "ra \<in> set rs" and "stepId ra = a" and "status ra = S_error \<or> status ra = S_skipped"
      and "rb \<in> set rs" and "stepId rb = b"
  shows "status rb = S_skipped \<or>
         (status rb = S_error \<and> error rb = Some ''Deadlock: dependencies never met'' \<and>
          durationMs rb = 0 \<and> (\<not> depsCovered {} steps \<or> \<not> readableErrors steps))"
proof -
  from runWorkflow_Final[OF assms(1,2)] obtain m where f: "Final w steps m rs" ..
  have edge: "m x \<noteq> Some S_success" if e: "(x, y) \<in> dependsRel steps" and y: "m y \<noteq> Some S_success" for x y
  proof
    assume x: "m x = Some S_success"
    from e obtain s where s: "s \<in> set steps" "x = ident s" "y \<in> set (deps s)" by (auto simp: dependsRel_def)
    have "terminal S_success" by (simp add: terminal_def)
    from Final_status_of_id[OF f x this] obtain q where q: "q \<in> set rs" "stepId q = x" "status q = S_success"
      by auto
    from Final_explained[OF f assms(2) s(1) q(1)] q(2,3) s(2,3) y show False by auto
  qed
  from f assms(4,5,6) have a: "m a \<noteq> Some S_success" by (auto simp: Final_def)
  from assms(3) obtain z where z: "(b, z) \<in> dependsRel steps" "(z, a) \<in> (dependsRel steps)\<^sup>*"
    by (meson tranclD)
  from z(2) a have mz: "m z \<noteq> Some S_success"
  proof (induction rule: converse_rtrancl_induct)
    case base
    then show ?case .
  next
    case (step y z)
    from edge[OF step(1) step(3)[OF step(4)]] show ?case .
  qed
  from z(1) obtain s where s: "s \<in> set steps" "b = ident s" "z \<in> set (deps s)" by (auto simp: dependsRel_def)
  from Final_explained[OF f assms(2) s(1) assms(7)] assms(8) s(2,3) mz show ?thesis by auto
qed

text \<open>
  C3. The claim says that a step depending, directly or through a chain, on a step that
  ended \<open>error\<close> or \<open>skipped\<close> ends \<open>skipped\<close>. The scan marks a step \<open>skipped\<close> when one of
  its dependencies is \<open>error\<close> or \<open>skipped\<close> at the moment the step is visited, it visits
  the pending steps once per tick in the order of the input, and the deadlock check comes
  right after it. For the chain \<open>C\<close> on \<open>B\<close> on \<open>A\<close> listed as \<open>C\<close>, \<open>B\<close>, \<open>A\<close>, with \<open>A\<close>
  rejecting: in the tick after \<open>A\<close> failed the scan sees \<open>C\<close> while \<open>B\<close> is still pending,
  then skips \<open>B\<close>; nothing is running, so \<open>C\<close> is marked \<open>error\<close> with the deadlock reason,
  although \<open>B\<close> ended \<open>skipped\<close> and \<open>A\<close> ended \<open>error\<close>. The same three steps listed as \<open>A\<close>,
  \<open>B\<close>, \<open>C\<close> give \<open>C\<close> the status \<open>skipped\<close>.
\<close>

theorem late_dependent_marked_deadlock:
  "runWorkflow promptWorld lateDependencyExample =
     Some (Inr [\<lparr>stepId = ''A'', r_label = ''A'', status = S_error, error = Some ''boom'',
                  durationMs = 0\<rparr>,
                \<lparr>stepId = ''B'', r_label = ''B'', status = S_skipped,
                  error = Some ''Dependency failed'', durationMs = 0\<rparr>,
                \<lparr>stepId = ''C'', r_label = ''C'', status = S_error,
                  error = Some ''Deadlock: dependencies never met'', durationMs = 0\<rparr>]) \<and>
   runWorkflow promptWorld (rev lateDependencyExample) =
     Some (Inr [\<lparr>stepId = ''A'', r_label = ''A'', status = S_error, error = Some ''boom'',
                  durationMs = 0\<rparr>,
                \<lparr>stepId = ''B'', r_label = ''B'', status = S_skipped,
                  error = Some ''Dependency failed'', durationMs = 0\<rparr>,
                \<lparr>stepId = ''C'', r_label = ''C'', status = S_skipped,
                  error = Some ''Dependency failed'', durationMs = 0\<rparr>]) \<and>
   map ident lateDependencyExample = [''C'', ''B'', ''A''] \<and>
   map deps lateDependencyExample = [[''B''], [''A''], []] \<and>
   \<not> depsCovered {} lateDependencyExample \<and> depsCovered {} (rev lateDependencyExample)"
  by code_simp

text \<open>
  C4. The claim says that \<open>runWorkflow\<close> returns on every finite list of steps. It does not
  when the body of a started step throws before it returns a promise (an ordinary function
  that raises, as \<open>() => runOpenSession(resolveSession(step))\<close> does for an unknown
  session): \<open>catch\<close> and \<open>finally\<close> run inside the call of the async wrapper, so
  \<open>runningPromises.delete(step.id)\<close> precedes \<open>runningPromises.set(step.id, promise)\<close>, the
  settled promise stays in the map for ever, \<open>Promise.race\<close> resumes at once on every tick
  and the loop condition never becomes false. Unless cancellation is observed, the run of
  the single step below never returns.
\<close>

theorem sync_throw_never_returns:
  assumes "\<forall>n. \<not> shouldCancel w n" and "enabled s" and "deps s = []" and "run s = ThrowsSync m"
  shows "runWorkflow w [s] = None"
proof -
  define st0 where "st0 = \<lparr>results = [], statusById = [ident s \<mapsto> S_pending],
      runningPromises = [], pendingSteps = [s]\<rparr>"
  define st2 where "st2 = launch w [s] st0"
  have init: "markDisabled [s] (initial [s]) = st0"
    using assms(2) by (simp add: initial_def st0_def)
  have fr: "findReady (pendingSteps st0) st0 [] = (st0, [s])"
    using assms(3) by (simp add: st0_def anyDepFailed_def allDepsSuccess_def)
  have p2: "pendingSteps st2 = []" and r2: "runningPromises st2 = [(ident s, Settled)]"
    by (simp_all add: st2_def launch_def launchStep_fields(1) launchStep_fields(7)[OF assms(4)] st0_def)
  have "inFlightOf st2 i = None" for i
    by (simp add: inFlightOf_def r2)
  then have "settledNow w 0 st2 = []"
    by (simp add: settledNow_def List.map_filter_def)
  then have aw: "awaitRace w 0 st2 = Some (Inr st2)"
    by (simp add: awaitRace_def r2 isSettled_def)
  have p0: "pendingSteps st0 \<noteq> []" by (simp add: st0_def)
  have "schedule w 0 st0 = schedule w (Suc 0) st2"
    by (subst schedule.simps) (simp add: p0 fr p2 r2 aw assms(1) st2_def[symmetric])
  moreover have "schedule w (Suc 0) st2 = None"
  proof (cases "schedule w (Suc 0) st2")
    case None
    then show ?thesis .
  next
    case (Some out)
    from stale_never_returns[OF Some, of "ident s"] p2 r2 assms(1) show ?thesis by simp
  qed
  ultimately show ?thesis unfolding runWorkflow_def init by simp
qed

theorem sync_throw_never_returns_witness:
  "(\<forall>n. \<not> shouldCancel promptWorld n) \<and>
   enabled \<lparr>ident = ''openSession1'', label = ''Open'', enabled = True,
            run = ThrowsSync (Some ''Session not found for step openSession1''),
            dependsOn = None, sessionId = None\<rparr> \<and>
   deps \<lparr>ident = ''openSession1'', label = ''Open'', enabled = True,
         run = ThrowsSync (Some ''Session not found for step openSession1''),
         dependsOn = None, sessionId = None\<rparr> = [] \<and>
   runWorkflow promptWorld
     [\<lparr>ident = ''openSession1'', label = ''Open'', enabled = True,
       run = ThrowsSync (Some ''Session not found for step openSession1''),
       dependsOn = None, sessionId = None\<rparr>] = None"
proof -
  let ?s = "\<lparr>ident = ''openSession1'', label = ''Open'', enabled = True,
            run = ThrowsSync (Some ''Session not found for step openSession1''),
            dependsOn = None, sessionId = None\<rparr>"
  have c: "\<forall>n. \<not> shouldCancel promptWorld n" by (simp add: promptWorld_def)
  have e: "enabled ?s" by simp
  have d: "deps ?s = []" by (simp add: deps_def)
  have r: "run ?s = ThrowsSync (Some ''Session not found for step openSession1'')" by simp
  from sync_throw_never_returns[OF c e d r] c e d show ?thesis by blast
qed

section \<open>Claims about the task registry\<close>

lemma wfTasks_stopTask: "wfTasks st \<Longrightarrow> wfTasks (stopTask sid st)"
  by (auto simp: wfTasks_def stopTask_def abort_def Let_def distinct_delete set_delete
           split: option.splits)

lemma wfTasks_cancel_entry:
  "wfTasks s \<Longrightarrow> wfTasks ((abort c s)\<lparr>registry := AList.delete k (registry (abort c s))\<rparr>)"
  by (auto simp: wfTasks_def abort_def distinct_delete set_delete)

lemma wfTasks_cancel_fold:
  "wfTasks s \<Longrightarrow>
   wfTasks (fold (\<lambda>entry s. (abort (controller (snd entry)) s)
                        \<lparr>registry := AList.delete (fst entry) (registry (abort (controller (snd entry)) s))\<rparr>)
       es s)"
  by (induction es arbitrary: s) (simp_all add: wfTasks_cancel_entry)

lemma wfTasks_cancelAllTasks: "wfTasks st \<Longrightarrow> wfTasks (cancelAllTasks st)"
  unfolding cancelAllTasks_def by (rule wfTasks_cancel_fold)

lemma stopTask_controllers_length [simp]:
  "length (controllers (stopTask sid st)) = length (controllers st)"
  by (simp add: stopTask_def abort_def Let_def split: option.splits)

lemma stopTask_removes [simp]: "map_of (registry (stopTask sid st)) sid = None"
  by (simp add: stopTask_def abort_def Let_def delete_conv split: option.splits)

lemma stopTask_others:
  "other \<noteq> sid \<Longrightarrow> map_of (registry (stopTask sid st)) other = map_of (registry st) other"
  by (simp add: stopTask_def abort_def Let_def delete_conv split: option.splits)

lemma stopTask_aborts:
  "wfTasks st \<Longrightarrow> map_of (registry st) sid = Some old \<Longrightarrow>
   aborted (stopTask sid st) (controller old)"
  by (auto simp: stopTask_def abort_def Let_def aborted_def wfTasks_def dest!: map_of_SomeD)

lemma set_update_cases: "e \<in> set (AList.update k v ps) \<Longrightarrow> e = (k, v) \<or> e \<in> set ps"
  by (induction ps) (auto split: if_splits)

lemma single_entry:
  "distinct (map fst ps) \<Longrightarrow> map_of ps k = Some v \<Longrightarrow> length (filter (\<lambda>e. fst e = k) ps) = 1"
proof (induction ps)
  case Nil
  then show ?case by simp
next
  case (Cons p ps)
  show ?case
  proof (cases "fst p = k")
    case True
    from Cons.prems(1) have "fst p \<notin> fst ` set ps" by simp
    then have "\<forall>e\<in>set ps. fst e \<noteq> fst p" by (metis imageI)
    with True have "filter (\<lambda>e. fst e = k) ps = []"
      by (simp add: filter_empty_conv)
    with True show ?thesis by simp
  next
    case False
    with Cons.prems have "distinct (map fst ps)" "map_of ps k = Some v"
      by (auto split: if_splits)
    with Cons.IH False show ?thesis by simp
  qed
qed

text \<open>
  C5. A registry built from the empty one by \<open>startTask\<close>, \<open>stopTask\<close> and
  \<open>cancelAllTasks\<close> never holds two
  entries for one entity. \<open>startTask\<close> for an entity that has a task aborts that task's
  signal and replaces its entry: afterwards the entity has exactly one entry, holding the
  new kind, the start time and a controller that did not exist before and is not aborted,
  whose signal is returned; the entries of other entities are unchanged. \<open>stopTask\<close>
  aborts the entity's signal and removes its entry.
\<close>

theorem startTask_single_active_task:
  assumes "wfTasks st"
  shows "wfTasks emptyTasks \<and>
         wfTasks (snd (startTask sid ty now st)) \<and>
         wfTasks (stopTask sid st) \<and>
         wfTasks (cancelAllTasks st) \<and>
         distinct (map fst (registry (snd (startTask sid ty now st)))) \<and>
         length (filter (\<lambda>e. fst e = sid) (registry (snd (startTask sid ty now st)))) = 1 \<and>
         map_of (registry (snd (startTask sid ty now st))) sid =
           Some \<lparr>taskType = ty, controller = fst (startTask sid ty now st), startTime = now\<rparr> \<and>
         fst (startTask sid ty now st) = length (controllers st) \<and>
         length (controllers (snd (startTask sid ty now st))) = Suc (length (controllers st)) \<and>
         \<not> aborted (snd (startTask sid ty now st)) (fst (startTask sid ty now st)) \<and>
         (\<forall>old. map_of (registry st) sid = Some old \<longrightarrow>
            controller old \<noteq> fst (startTask sid ty now st) \<and>
            aborted (snd (startTask sid ty now st)) (controller old) \<and>
            aborted (stopTask sid st) (controller old)) \<and>
         (\<forall>other. other \<noteq> sid \<longrightarrow>
            map_of (registry (snd (startTask sid ty now st))) other = map_of (registry st) other) \<and>
         map_of (registry (stopTask sid st)) sid = None"
proof -
  define st1 where "st1 = (if map_of (registry st) sid \<noteq> None then stopTask sid st else st)"
  define c where "c = length (controllers st1)"
  define st3 where "st3 = st1\<lparr>controllers := controllers st1 @ [False],
      registry := AList.update sid \<lparr>taskType = ty, controller = c, startTime = now\<rparr> (registry st1)\<rparr>"
  have start: "startTask sid ty now st = (c, st3)"
    by (simp add: startTask_def Let_def st1_def c_def st3_def)
  have w1: "wfTasks st1" using assms wfTasks_stopTask by (simp add: st1_def)
  have len1: "length (controllers st1) = length (controllers st)" by (simp add: st1_def)
  have w3: "wfTasks st3"
  proof -
    have "controller (snd e) < length (controllers st3)" if "e \<in> set (registry st3)" for e
    proof -
      from that have "e = (sid, \<lparr>taskType = ty, controller = c, startTime = now\<rparr>) \<or> e \<in> set (registry st1)"
        unfolding st3_def by (auto dest: set_update_cases)
      with w1 show ?thesis by (auto simp: wfTasks_def st3_def c_def intro: less_SucI)
    qed
    moreover have "distinct (map fst (registry st3))"
      using w1 by (simp add: wfTasks_def st3_def distinct_update)
    ultimately show ?thesis by (simp add: wfTasks_def)
  qed
  have d3: "distinct (map fst (registry st3))" using w3 by (simp add: wfTasks_def)
  have m3: "map_of (registry st3) sid = Some \<lparr>taskType = ty, controller = c, startTime = now\<rparr>"
    by (simp add: st3_def update_conv)
  have one: "length (filter (\<lambda>e. fst e = sid) (registry st3)) = 1"
    by (rule single_entry[OF d3 m3])
  have na: "\<not> aborted st3 c" by (simp add: aborted_def st3_def c_def)
  have old: "controller old \<noteq> c \<and> aborted st3 (controller old) \<and> aborted (stopTask sid st) (controller old)"
    if o: "map_of (registry st) sid = Some old" for old
  proof -
    from assms o have lt: "controller old < length (controllers st)"
      by (auto simp: wfTasks_def dest!: map_of_SomeD)
    from stopTask_aborts[OF assms o] have a: "aborted (stopTask sid st) (controller old)" .
    from o have "st1 = stopTask sid st" by (simp add: st1_def)
    with a lt have "aborted st3 (controller old)"
      by (simp add: aborted_def st3_def nth_append)
    with lt a show ?thesis by (simp add: c_def len1)
  qed
  have others: "map_of (registry st3) other = map_of (registry st) other" if "other \<noteq> sid" for other
    using that by (simp add: st3_def update_conv st1_def stopTask_others)
  have e: "wfTasks emptyTasks" by (simp add: wfTasks_def emptyTasks_def)
  show ?thesis
    unfolding start fst_conv snd_conv
    using e w3 wfTasks_stopTask[OF assms] wfTasks_cancelAllTasks[OF assms] d3 one m3 na old others
    by (simp add: c_def len1 st3_def)
qed

theorem startTask_single_active_task_witness:
  "wfTasks (snd (startTask ''s1'' T_prompts 5 emptyTasks)) \<and>
   startTask ''s1'' T_download 9 (snd (startTask ''s1'' T_prompts 5 emptyTasks)) =
     (1, \<lparr>registry = [(''s1'', \<lparr>taskType = T_download, controller = 1, startTime = 9\<rparr>)],
          controllers = [True, False]\<rparr>) \<and>
   map_of (registry (snd (startTask ''s1'' T_prompts 5 emptyTasks))) ''s1'' =
     Some \<lparr>taskType = T_prompts, controller = 0, startTime = 5\<rparr> \<and>
   aborted (snd (startTask ''s1'' T_download 9 (snd (startTask ''s1'' T_prompts 5 emptyTasks)))) 0 \<and>
   \<not> aborted (snd (startTask ''s1'' T_download 9 (snd (startTask ''s1'' T_prompts 5 emptyTasks)))) 1"
proof -
  let ?st = "snd (startTask ''s1'' T_prompts 5 emptyTasks)"
  have st: "?st = \<lparr>registry = [(''s1'', \<lparr>taskType = T_prompts, controller = 0, startTime = 5\<rparr>)],
      controllers = [False]\<rparr>"
    by (simp add: startTask_def emptyTasks_def Let_def)
  have w: "wfTasks ?st" unfolding st by (simp add: wfTasks_def)
  have m: "map_of (registry ?st) ''s1'' = Some \<lparr>taskType = T_prompts, controller = 0, startTime = 5\<rparr>"
    unfolding st by simp
  have r: "startTask ''s1'' T_download 9 ?st =
     (1, \<lparr>registry = [(''s1'', \<lparr>taskType = T_download, controller = 1, startTime = 9\<rparr>)],
          controllers = [True, False]\<rparr>)"
    unfolding st by (simp add: startTask_def stopTask_def abort_def Let_def)
  have f: "fst (startTask ''s1'' T_download 9 ?st) = 1" by (simp only: r fst_conv)
  from startTask_single_active_task[OF w, of "''s1''" T_download 9]
  have A: "\<not> aborted (snd (startTask ''s1'' T_download 9 ?st)) (fst (startTask ''s1'' T_download 9 ?st))"
    and B: "\<forall>old. map_of (registry ?st) ''s1'' = Some old \<longrightarrow>
            aborted (snd (startTask ''s1'' T_download 9 ?st)) (controller old)"
    by blast+
  from B m have "aborted (snd (startTask ''s1'' T_download 9 ?st))
      (controller \<lparr>taskType = T_prompts, controller = 0, startTime = 5\<rparr>)" by blast
  then have a0: "aborted (snd (startTask ''s1'' T_download 9 ?st)) 0" by simp
  from A have a1: "\<not> aborted (snd (startTask ''s1'' T_download 9 ?st)) 1" unfolding f .
  from a0 a1 w r m show ?thesis by blast
qed

section \<open>Claims about the watchdog\<close>

text \<open>
  When \<open>onTimeout\<close> settles before the next event, the entry behaves as the claim says: the
  check calls \<open>onTimeout\<close> exactly when more than \<open>timeoutMs\<close> has passed since the last
  heartbeat, the entry stays armed with its heartbeat reset to the time \<open>onTimeout\<close>
  settled, no check within \<open>timeoutMs\<close> of that time fires, and neither does a check within
  \<open>timeoutMs\<close> of a later heartbeat.
\<close>

lemma watchdog_snoozes_when_onTimeout_settles_first:
  assumes "map_of (watchers st) runId = Some entry"
      and "now - lastHeartbeat entry > timeoutMs entry"
  shows "timedOut runId now st"
    and "fired (intervalCallback runId now settledAt st) = fired st @ [(runId, now)]"
    and "map_of (watchers (intervalCallback runId now settledAt st)) runId =
           Some (entry\<lparr>lastHeartbeat := settledAt\<rparr>)"
    and "t - settledAt \<le> timeoutMs entry \<Longrightarrow>
           \<not> timedOut runId t (intervalCallback runId now settledAt st)"
    and "t - h \<le> timeoutMs entry \<Longrightarrow>
           \<not> timedOut runId t (heartbeat runId h (intervalCallback runId now settledAt st))"
  using assms
  by (simp_all add: timedOut_def intervalCallback_def intervalCheck_def intervalFinally_def
        heartbeat_def update_conv)

lemma watchdog_quiet_within_budget:
  assumes "map_of (watchers st) runId = Some entry"
      and "now - lastHeartbeat entry \<le> timeoutMs entry"
  shows "intervalCallback runId now settledAt st = st"
  using assms by (simp add: timedOut_def intervalCallback_def)

text \<open>
  C6. The claim says that after a timeout the heartbeat is reset at once, so that
  \<open>onTimeout\<close> never fires twice inside one timeout window. The reset is in the \<open>finally\<close>
  block behind \<open>await current.onTimeout()\<close>; while \<open>onTimeout\<close> has not settled, the next
  tick of the timer still sees the old heartbeat and calls \<open>onTimeout\<close> again. With a
  budget of 120000 ms and no heartbeat since the watchdog was armed at time 0, the ticks
  at 125000 and 130000 both call \<open>onTimeout\<close> when the first call settles at 131000:
  two calls 5000 ms apart.
\<close>

theorem watchdog_fires_twice_in_one_window:
  "fired (watchdogRun
            [Arm ''download:s1'' 120000 0,
             Tick ''download:s1'' 125000,
             Tick ''download:s1'' 130000,
             TimeoutSettled ''download:s1'' 131000,
             TimeoutSettled ''download:s1'' 131500]
            noWatchers)
     = [(''download:s1'', 125000), (''download:s1'', 130000)] \<and>
   130000 - 125000 = WATCHDOG_CHECK_INTERVAL_MS \<and>
   130000 - (125000 :: int) \<le> 120000"
  by (simp add: watchdogRun_def noWatchers_def startWatchdog_def stopWatchdog_def
        intervalCheck_def intervalFinally_def timedOut_def WATCHDOG_CHECK_INTERVAL_MS_def)

section \<open>Claims about the Chrome session manager\<close>

lemma findSep_prefix: "sep \<noteq> [] \<Longrightarrow> findSep sep (sep @ s) = Some 0"
  by (cases sep) (simp_all add: startsWith_def)

lemma jsSplit_marker:
  assumes "sep \<noteq> []" and "findSep sep s = None"
  shows "jsSplit sep (sep @ s) = [[], s]"
proof -
  have "jsSplit sep s = [s]"
    using assms by (subst jsSplit.simps) simp
  then show ?thesis
    using assms(1) by (subst jsSplit.simps) (simp add: findSep_prefix)
qed

lemma onLaunchError_already_running:
  assumes "findSep ALREADY_RUNNING ws = None"
  shows "onLaunchError w portNo sid (ALREADY_RUNNING @ ws) st =
           (connect w Attach ws, setSession sid portNo ws st)"
proof -
  have "jsSplit ALREADY_RUNNING (ALREADY_RUNNING @ ws) = [[], ws]"
    by (rule jsSplit_marker[OF _ assms]) (simp add: ALREADY_RUNNING_def)
  moreover have "startsWith ALREADY_RUNNING (ALREADY_RUNNING @ ws)"
    unfolding startsWith_def by simp
  moreover have "ALREADY_RUNNING @ ws \<noteq> []" by (simp add: ALREADY_RUNNING_def)
  ultimately show ?thesis
    unfolding onLaunchError_def by (simp add: at_def Let_def)
qed

lemma onLaunchError_spawned: "spawned (snd (onLaunchError w portNo sid msg st)) = spawned st"
  by (simp add: onLaunchError_def setSession_def Let_def split: option.splits)

lemma launchChromeWithCdp_spawned:
  "spawned (snd (launchChromeWithCdp w portNo dir st)) =
     (if (\<exists>path. chromePath w = Inr path) \<and> mkdirFails w = None \<and> checkCdpPort w 0 = None
      then spawned st @ [(portNo, dir)] else spawned st)"
  by (auto simp: launchChromeWithCdp_def Let_def split: sum.splits option.splits)

lemma relaunch_spawned:
  "spawned (snd (relaunch w portNo sid st)) =
     (if prepared w \<and> checkCdpPort w 0 = None
      then spawned st @ [(portNo, projr (resolveTarget w))] else spawned st)"
proof (cases "resolveTarget w")
  case (Inl e)
  then show ?thesis by (simp add: relaunch_def prepared_def)
next
  case (Inr dir)
  show ?thesis
  proof (cases "cloneVerified w \<or> seedFails w = None")
    case False
    with Inr show ?thesis by (auto simp: relaunch_def prepared_def)
  next
    case True
    then have s: "(if cloneVerified w then None else seedFails w) = None" by auto
    obtain res st1 where l: "launchChromeWithCdp w portNo dir st = (res, st1)" by force
    from launchChromeWithCdp_spawned[of w portNo dir st] l
    have sp1: "spawned st1 = (if (\<exists>path. chromePath w = Inr path) \<and> mkdirFails w = None \<and> checkCdpPort w 0 = None
      then spawned st @ [(portNo, dir)] else spawned st)" by simp
    have "spawned (snd (relaunch w portNo sid st)) = spawned st1"
      using Inr s l
      by (cases res; cases "connect w AfterLaunch (projr res)")
         (simp_all add: relaunch_def Let_def onLaunchError_spawned setSession_def)
    with sp1 Inr True show ?thesis by (auto simp: prepared_def)
  qed
qed

lemma relaunch_attaches:
  assumes "prepared w" and "checkCdpPort w 0 = Some ws" and "findSep ALREADY_RUNNING ws = None"
  shows "relaunch w portNo sid st = (connect w Attach ws, setSession sid portNo ws st)"
proof -
  from assms(1) obtain dir path where p: "resolveTarget w = Inr dir" "chromePath w = Inr path"
      "mkdirFails w = None" "(if cloneVerified w then None else seedFails w) = None"
    by (auto simp: prepared_def)
  have "launchChromeWithCdp w portNo dir st = (Inl (ALREADY_RUNNING @ ws), st)"
    using p assms(2) by (simp add: launchChromeWithCdp_def)
  with p show ?thesis
    by (simp add: relaunch_def onLaunchError_already_running[OF assms(3)])
qed

text \<open>
  C7, as the code has it. The claim says that once the reconnect probe fails the call
  spawns exactly one new process. When the port already answers (Chrome was restarted
  outside the application, so the recorded endpoint is stale but the port is served), the
  launcher reports \<open>ALREADY_RUNNING\<close>, the manager attaches to that endpoint, and no
  process is spawned.
\<close>

theorem stale_entry_counterexample:
  "map_of (activeSessions staleState) ''s1'' =
     Some \<lparr>port = 9222, wsEndpoint = ''ws://127.0.0.1:9222/devtools/browser/old''\<rparr> \<and>
   connects answeringWorld Probe ''ws://127.0.0.1:9222/devtools/browser/old'' =
     Some ''connect ECONNREFUSED'' \<and>
   getOrLaunchChromeForProfile answeringWorld 9222 ''s1'' staleState =
     (Inr (Browser ''ws://127.0.0.1:9222/devtools/browser/new''),
      \<lparr>activeSessions =
         [(''s1'', \<lparr>port = 9222, wsEndpoint = ''ws://127.0.0.1:9222/devtools/browser/new''\<rparr>)],
       spawned = []\<rparr>) \<and>
   spawned staleState = []"
proof -
  let ?new = "''ws://127.0.0.1:9222/devtools/browser/new''"
  have p: "prepared answeringWorld" by (simp add: prepared_def answeringWorld_def)
  have c: "checkCdpPort answeringWorld 0 = Some ?new" by (simp add: checkCdpPort_def answeringWorld_def)
  have f: "findSep ALREADY_RUNNING ?new = None" by (simp add: startsWith_def ALREADY_RUNNING_def)
  have "getOrLaunchChromeForProfile answeringWorld 9222 ''s1'' staleState =
      relaunch answeringWorld 9222 ''s1'' (staleState\<lparr>activeSessions := []\<rparr>)"
    by (simp add: getOrLaunchChromeForProfile_def staleState_def connect_def answeringWorld_def)
  also have "\<dots> = (connect answeringWorld Attach ?new, setSession ''s1'' 9222 ?new (staleState\<lparr>activeSessions := []\<rparr>))"
    by (rule relaunch_attaches[OF p c f])
  also have "\<dots> = (Inr (Browser ?new),
      \<lparr>activeSessions = [(''s1'', \<lparr>port = 9222, wsEndpoint = ?new\<rparr>)], spawned = []\<rparr>)"
    by (simp add: connect_def answeringWorld_def setSession_def staleState_def)
  finally show ?thesis by (simp add: staleState_def answeringWorld_def)
qed

text \<open>
  C7, amended. For an entity with a registry entry: while the recorded endpoint accepts
  the reconnect probe, the call returns a handle to that endpoint and changes nothing (no
  process is spawned, the registry is as before). Once the probe fails, the stale entry is
  deleted and the call goes on as for an entity without entry; it spawns at most one
  process: exactly one when the profile is prepared, the Chrome executable is found and
  the port does not answer yet, and none otherwise (in particular none when it attaches
  to an endpoint that already answers on the port).
\<close>

theorem getOrLaunch_idempotent_while_live:
  assumes "sid \<noteq> []" and "map_of (activeSessions st) sid = Some active"
  shows "(connects w Probe (wsEndpoint active) = None \<longrightarrow>
            getOrLaunchChromeForProfile w portNo sid st = (Inr (Browser (wsEndpoint active)), st)) \<and>
         (connects w Probe (wsEndpoint active) \<noteq> None \<longrightarrow>
            getOrLaunchChromeForProfile w portNo sid st =
              relaunch w portNo sid (st\<lparr>activeSessions := AList.delete sid (activeSessions st)\<rparr>) \<and>
            map_of (AList.delete sid (activeSessions st)) sid = None \<and>
            spawned (snd (getOrLaunchChromeForProfile w portNo sid st)) =
              (if prepared w \<and> checkCdpPort w 0 = None
               then spawned st @ [(portNo, projr (resolveTarget w))] else spawned st))"
  using assms
  by (auto simp: getOrLaunchChromeForProfile_def connect_def relaunch_spawned delete_conv
           split: option.splits)

theorem getOrLaunch_idempotent_while_live_witness:
  "map_of (activeSessions liveState) ''s1'' =
     Some \<lparr>port = 9222, wsEndpoint = ''ws://127.0.0.1:9222/devtools/browser/new''\<rparr> \<and>
   connects silentWorld Probe ''ws://127.0.0.1:9222/devtools/browser/new'' = None \<and>
   getOrLaunchChromeForProfile silentWorld 9222 ''s1'' liveState =
     (Inr (Browser ''ws://127.0.0.1:9222/devtools/browser/new''), liveState) \<and>
   map_of (activeSessions staleState) ''s1'' =
     Some \<lparr>port = 9222, wsEndpoint = ''ws://127.0.0.1:9222/devtools/browser/old''\<rparr> \<and>
   connects silentWorld Probe ''ws://127.0.0.1:9222/devtools/browser/old'' \<noteq> None \<and>
   prepared silentWorld \<and> checkCdpPort silentWorld 0 = None \<and>
   spawned (snd (getOrLaunchChromeForProfile silentWorld 9222 ''s1'' staleState)) =
     [(9222, ''/clones/default_s1'')]"
proof -
  let ?new = "\<lparr>port = 9222, wsEndpoint = ''ws://127.0.0.1:9222/devtools/browser/new''\<rparr>"
  let ?old = "\<lparr>port = 9222, wsEndpoint = ''ws://127.0.0.1:9222/devtools/browser/old''\<rparr>"
  have s: "''s1'' \<noteq> []" by simp
  have ml: "map_of (activeSessions liveState) ''s1'' = Some ?new" by (simp add: liveState_def)
  have ms: "map_of (activeSessions staleState) ''s1'' = Some ?old" by (simp add: staleState_def)
  have cl: "connects silentWorld Probe (wsEndpoint ?new) = None" by (simp add: silentWorld_def)
  have cs: "connects silentWorld Probe (wsEndpoint ?old) \<noteq> None" by (simp add: silentWorld_def)
  have p: "prepared silentWorld" by (simp add: prepared_def silentWorld_def)
  have c0: "checkCdpPort silentWorld 0 = None" by (simp add: checkCdpPort_def silentWorld_def)
  have r: "projr (resolveTarget silentWorld) = ''/clones/default_s1''" by (simp add: silentWorld_def)
  have sp: "spawned staleState = []" by (simp add: staleState_def)
  from getOrLaunch_idempotent_while_live[OF s ml, of silentWorld 9222] cl
  have a: "getOrLaunchChromeForProfile silentWorld 9222 ''s1'' liveState =
      (Inr (Browser ''ws://127.0.0.1:9222/devtools/browser/new''), liveState)" by simp
  from getOrLaunch_idempotent_while_live[OF s ms, of silentWorld 9222] cs
  have b0: "spawned (snd (getOrLaunchChromeForProfile silentWorld 9222 ''s1'' staleState)) =
      (if prepared silentWorld \<and> checkCdpPort silentWorld 0 = None
       then spawned staleState @ [(9222, projr (resolveTarget silentWorld))] else spawned staleState)"
    by blast
  have b: "spawned (snd (getOrLaunchChromeForProfile silentWorld 9222 ''s1'' staleState)) =
      [(9222, ''/clones/default_s1'')]"
    unfolding b0 using p c0 by (simp add: r sp)
  have cl': "connects silentWorld Probe ''ws://127.0.0.1:9222/devtools/browser/new'' = None"
    using cl by simp
  have cs': "connects silentWorld Probe ''ws://127.0.0.1:9222/devtools/browser/old'' \<noteq> None"
    using cs by simp
  from a b ml ms cl' cs' p c0 show ?thesis by blast
qed

text \<open>
  C8. A launch is requested for an entity (it has no registry entry, or the recorded
  endpoint failed the probe) with the profile prepared and the Chrome executable found.
  When the port already answers the status request with an endpoint that accepts the
  connection, the call succeeds: it spawns nothing, records the port and that endpoint in
  the registry under the entity's id, leaves the other entries as they are, and returns
  the browser connected to that endpoint. (The endpoint is cut out of the message
  \<open>ALREADY_RUNNING:<endpoint>\<close> by \<open>split\<close>, so it must not contain that marker itself.)
\<close>

theorem attach_to_already_running:
  assumes "sid \<noteq> []"
      and "map_of (activeSessions st) sid = None \<or>
           (\<exists>active. map_of (activeSessions st) sid = Some active \<and>
                     connects w Probe (wsEndpoint active) \<noteq> None)"
      and "prepared w"
      and "checkCdpPort w 0 = Some ws"
      and "findSep ALREADY_RUNNING ws = None"
      and "connects w Attach ws = None"
  shows "fst (getOrLaunchChromeForProfile w portNo sid st) = Inr (Browser ws) \<and>
         map_of (activeSessions (snd (getOrLaunchChromeForProfile w portNo sid st))) sid =
           Some \<lparr>port = portNo, wsEndpoint = ws\<rparr> \<and>
         spawned (snd (getOrLaunchChromeForProfile w portNo sid st)) = spawned st \<and>
         (\<forall>other. other \<noteq> sid \<longrightarrow>
            map_of (activeSessions (snd (getOrLaunchChromeForProfile w portNo sid st))) other =
            map_of (activeSessions st) other)"
proof -
  define st0 where "st0 = (case map_of (activeSessions st) sid of None \<Rightarrow> st
      | Some a \<Rightarrow> st\<lparr>activeSessions := AList.delete sid (activeSessions st)\<rparr>)"
  have g: "getOrLaunchChromeForProfile w portNo sid st = relaunch w portNo sid st0"
    using assms(1,2)
    by (auto simp: getOrLaunchChromeForProfile_def connect_def st0_def split: option.splits)
  have r: "relaunch w portNo sid st0 = (Inr (Browser ws), setSession sid portNo ws st0)"
    using relaunch_attaches[OF assms(3,4,5)] assms(6) by (simp add: connect_def)
  have o: "map_of (activeSessions st0) other = map_of (activeSessions st) other" if "other \<noteq> sid" for other
    using that by (simp add: st0_def delete_conv split: option.splits)
  have sp: "spawned st0 = spawned st" by (simp add: st0_def split: option.splits)
  show ?thesis
    unfolding g r using o sp by (simp add: setSession_def update_conv)
qed

theorem attach_to_already_running_witness:
  "''s1'' \<noteq> [] \<and>
   map_of (activeSessions staleState) ''s1'' =
     Some \<lparr>port = 9222, wsEndpoint = ''ws://127.0.0.1:9222/devtools/browser/old''\<rparr> \<and>
   connects answeringWorld Probe ''ws://127.0.0.1:9222/devtools/browser/old'' \<noteq> None \<and>
   prepared answeringWorld \<and>
   checkCdpPort answeringWorld 0 = Some ''ws://127.0.0.1:9222/devtools/browser/new'' \<and>
   findSep ALREADY_RUNNING ''ws://127.0.0.1:9222/devtools/browser/new'' = None \<and>
   connects answeringWorld Attach ''ws://127.0.0.1:9222/devtools/browser/new'' = None \<and>
   fst (getOrLaunchChromeForProfile answeringWorld 9222 ''s1'' staleState) =
     Inr (Browser ''ws://127.0.0.1:9222/devtools/browser/new'') \<and>
   map_of (activeSessions (snd (getOrLaunchChromeForProfile answeringWorld 9222 ''s1'' staleState))) ''s1'' =
     Some \<lparr>port = 9222, wsEndpoint = ''ws://127.0.0.1:9222/devtools/browser/new''\<rparr> \<and>
   spawned (snd (getOrLaunchChromeForProfile answeringWorld 9222 ''s1'' staleState)) = []"
proof -
  let ?new = "''ws://127.0.0.1:9222/devtools/browser/new''"
  let ?old = "\<lparr>port = 9222, wsEndpoint = ''ws://127.0.0.1:9222/devtools/browser/old''\<rparr>"
  have s: "''s1'' \<noteq> []" by simp
  have ms: "map_of (activeSessions staleState) ''s1'' = Some ?old" by (simp add: staleState_def)
  have cs: "connects answeringWorld Probe (wsEndpoint ?old) \<noteq> None" by (simp add: answeringWorld_def)
  have e: "map_of (activeSessions staleState) ''s1'' = None \<or>
           (\<exists>active. map_of (activeSessions staleState) ''s1'' = Some active \<and>
                     connects answeringWorld Probe (wsEndpoint active) \<noteq> None)"
    using ms cs by blast
  have p: "prepared answeringWorld" by (simp add: prepared_def answeringWorld_def)
  have c: "checkCdpPort answeringWorld 0 = Some ?new" by (simp add: checkCdpPort_def answeringWorld_def)
  have f: "findSep ALREADY_RUNNING ?new = None" by (simp add: startsWith_def ALREADY_RUNNING_def)
  have a: "connects answeringWorld Attach ?new = None" by (simp add: answeringWorld_def)
  have sp: "spawned staleState = []" by (simp add: staleState_def)
  have cs': "connects answeringWorld Probe ''ws://127.0.0.1:9222/devtools/browser/old'' \<noteq> None"
    using cs by simp
  from attach_to_already_running[OF s e p c f a, of 9222]
  have "fst (getOrLaunchChromeForProfile answeringWorld 9222 ''s1'' staleState) = Inr (Browser ?new)"
    and "map_of (activeSessions (snd (getOrLaunchChromeForProfile answeringWorld 9222 ''s1'' staleState))) ''s1'' =
     Some \<lparr>port = 9222, wsEndpoint = ?new\<rparr>"
    and "spawned (snd (getOrLaunchChromeForProfile answeringWorld 9222 ''s1'' staleState)) = spawned staleState"
    by blast+
  with sp s ms cs' p c f a show ?thesis by simp
qed

section \<open>Download loop: what a call returns\<close>

declare downloadLoop.simps [simp del]

lemma notify_fields [simp]:
  "state (notify x st) = x"
  "saved (notify x st) = saved st"
  "seenNames (notify x st) = seenNames st"
  "notified (notify x st) = notified st @ [x]"
  "clicks (notify x st) = clicks st"
  "opened (notify x st) = opened st"
  by (simp_all add: notify_def)

lemma seenAdd_fields [simp]:
  "state (seenAdd n st) = state st"
  "saved (seenAdd n st) = saved st"
  "notified (seenAdd n st) = notified st"
  "clicks (seenAdd n st) = clicks st"
  "opened (seenAdd n st) = opened st"
  by (simp_all add: seenAdd_def)

lemma trimSeen_fields [simp]:
  "state (trimSeen opts st) = state st"
  "saved (trimSeen opts st) = saved st"
  "notified (trimSeen opts st) = notified st"
  "clicks (trimSeen opts st) = clicks st"
  "opened (trimSeen opts st) = opened st"
  by (simp_all add: trimSeen_def)

lemma fold_seenAdd_fields [simp]:
  "state (fold seenAdd ns st) = state st"
  "saved (fold seenAdd ns st) = saved st"
  "notified (fold seenAdd ns st) = notified st"
  "clicks (fold seenAdd ns st) = clicks st"
  "opened (fold seenAdd ns st) = opened st"
  by (induction ns arbitrary: st; simp)+

lemma recover_cases:
  assumes "recover w i st = (c, st')"
  shows "saved st' = saved st" and "state st' = SwipeNext" and "clicks st' = clicks st"
    and "c = Break \<Longrightarrow> recoverySwipeFails w i \<noteq> None"
  using assms by (auto simp: recover_def Let_def split: option.splits)

text \<open>A turn saves at most one file, and ends the loop only at the target or on a
  recovery swipe that failed.\<close>

lemma turn_cases:
  assumes "turn w opts i st = (c, st')"
  shows "saved st' = saved st \<and> state st' = SwipeNext \<and>
           (c = Break \<longrightarrow> recoverySwipeFails w i \<noteq> None)
         \<or> (\<exists>p. saved st' = saved st @ [p]) \<and>
           (if int (length (saved st')) \<ge> videosToDownload opts
            then c = Break \<and> state st' = Done
            else state st' = SwipeNext \<and> (c = Break \<longrightarrow> recoverySwipeFails w i \<noteq> None))"
  using assms
  by (auto simp: turn_def Let_def split: option.splits sum.splits if_splits
           dest: recover_cases)

lemma downloadLoop_bound:
  assumes "\<forall>i. \<not> isCancelled w i"
    and "downloadLoop w opts fuel i st = Some st'"
    and "int (length (saved st)) \<le> videosToDownload opts"
    and "state st = Done \<longrightarrow> int (length (saved st)) = videosToDownload opts"
  shows "int (length (saved st')) \<le> videosToDownload opts \<and>
         (state st' = Done \<longrightarrow> int (length (saved st')) = videosToDownload opts) \<and>
         (int (length (saved st')) < videosToDownload opts \<longrightarrow> (\<exists>j. recoverySwipeFails w j \<noteq> None))"
  using assms(2-)
proof (induction fuel arbitrary: i st)
  case 0
  then show ?case by (subst (asm) downloadLoop.simps) (auto split: if_splits)
next
  case (Suc fuel)
  note run = Suc.prems(1)[unfolded downloadLoop.simps[of w opts "Suc fuel" i st]]
  show ?case
  proof (cases "int (length (saved st)) < videosToDownload opts")
    case False
    with run Suc.prems show ?thesis by auto
  next
    case True
    obtain c st1 where t: "turn w opts i (trimSeen opts st) = (c, st1)"
      by (cases "turn w opts i (trimSeen opts st)")
    note tc = turn_cases[OF t, simplified]
    show ?thesis
    proof (cases c)
      case Break
      with run True t assms(1) have "st' = st1" by simp
      with tc Break True show ?thesis by (auto split: if_splits)
    next
      case Continue
      with run True t assms(1) have r: "downloadLoop w opts fuel (Suc i) st1 = Some st'" by simp
      from tc Continue True have "int (length (saved st1)) \<le> videosToDownload opts"
        and "state st1 = Done \<longrightarrow> int (length (saved st1)) = videosToDownload opts"
        by (auto split: if_splits)
      from Suc.IH[OF r this] show ?thesis .
    qed
  qed
qed

lemma turn_succeeds:
  assumes "allSucceed w"
  shows "turn w opts i st =
     (let st' = (notify PostDownloadDelay
                  ((seenAdd (pathBasename w (pathJoin w (downloadDir opts) (savedName w i)))
                     (notify WaitFileSaved
                       (seenAdd (pathBasename w (pathJoin w (downloadDir opts)
                                   (case startedFile w i of Inr n \<Rightarrow> n | Inl e \<Rightarrow> [])))
                         (notify WaitDownloadStart
                           ((notify StartDownload (notify WaitCardReady st))
                              \<lparr>clicks := Suc (clicks st)\<rparr>)))))
                   \<lparr>saved := saved st @ [pathJoin w (downloadDir opts) (savedName w i)]\<rparr>))
      in if int (length (saved st)) + 1 \<ge> videosToDownload opts
         then (Break, notify Done st') else (Continue, notify SwipeNext st'))"
proof -
  from assms obtain a b where
    "cardReadyFails w i = None" "clickFails w i = None" "swipeFails w i = None"
    "startedFile w i = Inr a" "savedFile w i = Inr b"
    unfolding allSucceed_def by blast
  then show ?thesis
    by (simp add: turn_def Let_def savedName_def)
qed

lemma downloadLoop_all_succeed:
  assumes "allSucceed w" and "\<forall>i. \<not> isCancelled w i"
    and "int (length (saved st)) + int n = videosToDownload opts"
    and "n \<le> fuel"
  shows "\<exists>st'. downloadLoop w opts fuel i st = Some st' \<and>
           saved st' = saved st @ map (\<lambda>j. pathJoin w (downloadDir opts) (savedName w j)) [i..<i + n] \<and>
           clicks st' = clicks st + n"
  using assms(3-)
proof (induction n arbitrary: fuel i st)
  case 0
  then show ?case by (subst downloadLoop.simps) simp
next
  case (Suc n)
  then obtain fuel' where f: "fuel = Suc fuel'" and le: "n \<le> fuel'"
    by (cases fuel) auto
  from Suc.prems have lt: "int (length (saved st)) < videosToDownload opts" by simp
  note ts = turn_succeeds[OF assms(1), of opts i "trimSeen opts st", simplified]
  show ?case
  proof (cases n)
    case 0
    with Suc.prems have "int (length (saved st)) + 1 \<ge> videosToDownload opts" by simp
    with lt f assms(2) 0 show ?thesis
      by (subst downloadLoop.simps) (simp add: ts Let_def)
  next
    case (Suc m)
    with Suc.prems have nb: "\<not> int (length (saved st)) + 1 \<ge> videosToDownload opts" by simp
    define st1 where "st1 = snd (turn w opts i (trimSeen opts st))"
    from nb have t: "turn w opts i (trimSeen opts st) = (Continue, st1)"
      unfolding st1_def by (simp add: ts Let_def)
    from nb have s1: "saved st1 = saved st @ [pathJoin w (downloadDir opts) (savedName w i)]"
      and c1: "clicks st1 = Suc (clicks st)"
      unfolding st1_def by (simp_all add: ts Let_def)
    from Suc.prems s1 have "int (length (saved st1)) + int n = videosToDownload opts" by simp
    from Suc.IH[OF this le, of "Suc i"] obtain st' where
      r: "downloadLoop w opts fuel' (Suc i) st1 = Some st'"
      and s: "saved st' = saved st1 @ map (\<lambda>j. pathJoin w (downloadDir opts) (savedName w j)) [Suc i..<Suc i + n]"
      and c: "clicks st' = clicks st1 + n"
      by blast
    have "[i..<i + Suc n] = i # [Suc i..<Suc i + n]"
      by (simp add: upt_conv_Cons)
    with lt f assms(2) t r s c s1 c1 show ?thesis
      by (subst downloadLoop.simps) simp
  qed
qed

lemma feedWorld_allSucceed: "allSucceed feedWorld"
  by (simp add: allSucceed_def feedWorld_def)

text \<open>
  Claim C9, as stated: with target \<open>t\<close> and resume offset \<open>k\<close>, \<open>0 \<le> k \<le> t\<close>, and no
  cancellation, the loop acquires exactly \<open>t - k\<close> files and returns \<open>completed = t - k\<close>.
  Not so: a turn that fails is followed by a recovery swipe, and when that swipe fails too
  the loop is left. With target 5 and offset 2, a card that never becomes ready and a
  swipe that fails, the call returns no file at all, in the state \<open>SwipeNext\<close>.
\<close>

theorem recovery_swipe_failure_counterexample:
  "maxDownloads resumeOptions = 5 \<and> skipOf resumeOptions = 2 \<and>
   isCancelled stuckWorld 0 = False \<and>
   runDownloadLoop stuckWorld resumeOptions 3 =
     Some (Inr \<lparr>completed = 0, savedFiles = [], lastState = SwipeNext\<rparr>)"
  by (simp add: resumeOptions_def stuckWorld_def skipOf_def runDownloadLoop_def
      runDownloadLoopState_def Let_def idleState_def notify_def sliceLast_def MAX_SEEN_def
      seenAdd_def videosToDownload_def turn_def recover_def trimSeen_def finishLoop_def
      resultOf_def downloadLoop.simps)

text \<open>
  Claim C9, amended: with \<open>0 \<le> k \<le> t\<close> and no cancellation, a call that returns reports
  as \<open>completed\<close> the length of \<open>savedFiles\<close>, which is at most \<open>t - k\<close>; it is less than
  \<open>t - k\<close> only when a recovery swipe failed, and \<open>lastState\<close> is \<open>Done\<close> exactly when it is
  \<open>t - k\<close>. When the directory is made, the card at index \<open>k\<close> opens and every step of every
  turn succeeds, the call returns after \<open>t - k\<close> turns with \<open>completed = t - k\<close> and the
  \<open>t - k\<close> saved paths in the order of the turns.
\<close>

theorem runDownloadLoop_completed_count:
  assumes "\<forall>i. \<not> isCancelled w i"
    and "0 \<le> skipOf opts" and "skipOf opts \<le> maxDownloads opts"
  shows "(\<forall>r. runDownloadLoop w opts fuel = Some (Inr r) \<longrightarrow>
            completed r = int (length (savedFiles r)) \<and>
            completed r \<le> maxDownloads opts - skipOf opts \<and>
            (completed r < maxDownloads opts - skipOf opts \<longrightarrow>
               (\<exists>i. recoverySwipeFails w i \<noteq> None)) \<and>
            (lastState r = Done \<longleftrightarrow> completed r = maxDownloads opts - skipOf opts))
       \<and> (allSucceed w \<and> mkdirRejects w = None \<and> openCardFails w (skipOf opts) = None \<and>
          nat (maxDownloads opts - skipOf opts) \<le> fuel \<longrightarrow>
            runDownloadLoop w opts fuel =
              Some (Inr \<lparr>completed = maxDownloads opts - skipOf opts,
                         savedFiles = map (\<lambda>j. pathJoin w (downloadDir opts) (savedName w j))
                                        [0..<nat (maxDownloads opts - skipOf opts)],
                         lastState = Done\<rparr>))"
proof (intro conjI allI impI)
  have T: "videosToDownload opts = maxDownloads opts - skipOf opts"
    using assms(3) by (simp add: videosToDownload_def)
  define st0 where "st0 = fold seenAdd (sliceLast (MAX_SEEN opts) (initialFiles w))
        ((notify OpenCard idleState)\<lparr>opened := opened (notify OpenCard idleState) @ [skipOf opts]\<rparr>)"
  have s0: "saved st0 = []" "state st0 = OpenCard"
    by (simp_all add: st0_def idleState_def)
  {
    fix r assume ret: "runDownloadLoop w opts fuel = Some (Inr r)"
    then obtain st' where l: "downloadLoop w opts fuel 0 st0 = Some st'"
      and r: "r = resultOf (finishLoop opts st')"
      by (auto simp: runDownloadLoop_def runDownloadLoopState_def Let_def st0_def
          split: option.splits)
    from assms(3) s0 have "int (length (saved st0)) \<le> videosToDownload opts"
      and "state st0 = Done \<longrightarrow> int (length (saved st0)) = videosToDownload opts"
      by (simp_all add: videosToDownload_def)
    from downloadLoop_bound[OF assms(1) l this] r T
    show "completed r = int (length (savedFiles r))"
      and "completed r \<le> maxDownloads opts - skipOf opts"
      and "lastState r = Done \<longleftrightarrow> completed r = maxDownloads opts - skipOf opts"
      by (auto simp: resultOf_def finishLoop_def)
    {
      assume "completed r < maxDownloads opts - skipOf opts"
      with downloadLoop_bound[OF assms(1) l \<open>int (length (saved st0)) \<le> videosToDownload opts\<close>
          \<open>state st0 = Done \<longrightarrow> int (length (saved st0)) = videosToDownload opts\<close>] r T
      show "\<exists>i. recoverySwipeFails w i \<noteq> None"
        by (auto simp: resultOf_def finishLoop_def split: if_splits)
    }
  }
  {
    assume a: "allSucceed w \<and> mkdirRejects w = None \<and> openCardFails w (skipOf opts) = None \<and>
          nat (maxDownloads opts - skipOf opts) \<le> fuel"
    from assms(3) s0 T
    have "int (length (saved st0)) + int (nat (maxDownloads opts - skipOf opts)) = videosToDownload opts"
      by simp
    from downloadLoop_all_succeed[OF _ assms(1) this, of fuel 0] a s0
    obtain st' where l: "downloadLoop w opts fuel 0 st0 = Some st'"
      and s: "saved st' = map (\<lambda>j. pathJoin w (downloadDir opts) (savedName w j))
                            [0..<nat (maxDownloads opts - skipOf opts)]"
      by auto
    from a l[unfolded st0_def] s T assms(3)
    show "runDownloadLoop w opts fuel =
              Some (Inr \<lparr>completed = maxDownloads opts - skipOf opts,
                         savedFiles = map (\<lambda>j. pathJoin w (downloadDir opts) (savedName w j))
                                        [0..<nat (maxDownloads opts - skipOf opts)],
                         lastState = Done\<rparr>)"
      by (simp add: runDownloadLoop_def runDownloadLoopState_def Let_def
          resultOf_def finishLoop_def)
  }
qed

lemma stuckWorld_run:
  "runDownloadLoop stuckWorld resumeOptions 3 =
     Some (Inr \<lparr>completed = 0, savedFiles = [], lastState = SwipeNext\<rparr>)"
  by (simp add: resumeOptions_def stuckWorld_def skipOf_def runDownloadLoop_def
      runDownloadLoopState_def Let_def idleState_def notify_def sliceLast_def MAX_SEEN_def
      seenAdd_def videosToDownload_def turn_def recover_def trimSeen_def finishLoop_def
      resultOf_def downloadLoop.simps)

theorem runDownloadLoop_completed_count_witness:
  "runDownloadLoop feedWorld resumeOptions 3 =
     Some (Inr \<lparr>completed = 3,
                savedFiles = [''/dl/v.mp4'', ''/dl/v|.mp4'', ''/dl/v||.mp4''],
                lastState = Done\<rparr>)
   \<and> runDownloadLoop stuckWorld resumeOptions 3 =
       Some (Inr \<lparr>completed = 0, savedFiles = [], lastState = SwipeNext\<rparr>)
   \<and> (\<exists>i. recoverySwipeFails stuckWorld i \<noteq> None)"
proof -
  have o: "maxDownloads resumeOptions = 5" "skipOf resumeOptions = 2" "downloadDir resumeOptions = ''/dl''"
    by (simp_all add: resumeOptions_def skipOf_def)
  have f: "\<forall>i. \<not> isCancelled feedWorld i" "mkdirRejects feedWorld = None"
    "openCardFails feedWorld 2 = None"
    by (simp_all add: feedWorld_def)
  have n: "savedName feedWorld 0 = ''v.mp4''" "savedName feedWorld (Suc 0) = ''v|.mp4''"
    "savedName feedWorld 2 = ''v||.mp4''"
    by (simp_all add: savedName_def feedWorld_def numeral_2_eq_2)
  have u: "[0..<3] = [0, Suc 0, 2]"
    by (simp add: upt_rec numeral_3_eq_3)
  have pj: "pathJoin feedWorld = slashJoin"
    by (simp add: feedWorld_def)
  have s: "\<forall>i. \<not> isCancelled stuckWorld i"
    by (simp add: stuckWorld_def)
  from runDownloadLoop_completed_count[of feedWorld resumeOptions 3] f feedWorld_allSucceed
  have a: "runDownloadLoop feedWorld resumeOptions 3 =
     Some (Inr \<lparr>completed = 3,
                savedFiles = [''/dl/v.mp4'', ''/dl/v|.mp4'', ''/dl/v||.mp4''],
                lastState = Done\<rparr>)"
    by (simp add: o n u pj slashJoin_def)
  from runDownloadLoop_completed_count[of stuckWorld resumeOptions 3] s stuckWorld_run
  have b: "\<exists>i. recoverySwipeFails stuckWorld i \<noteq> None"
    by (simp add: o)
  from a b stuckWorld_run show ?thesis by blast
qed

text \<open>
  Claim C10: when \<open>skipCount \<ge> maxDownloads\<close> the remaining target is clamped to zero. The
  body of the loop never runs, whatever the fuel: \<open>clickDownload\<close> is never called and the
  only state notified is \<open>OpenCard\<close>, for the one call of \<open>openCardAtIndex\<close> with
  \<open>skipCount\<close>. When the directory is made and that card opens, the call returns
  \<open>completed = 0\<close>, no saved file and the state \<open>Done\<close>; otherwise it throws, before any
  download.
\<close>

theorem skip_past_target_downloads_nothing:
  assumes "skipOf opts \<ge> maxDownloads opts"
  shows "videosToDownload opts = 0
       \<and> (mkdirRejects w = None \<and> openCardFails w (skipOf opts) = None \<longrightarrow>
            runDownloadLoop w opts fuel =
              Some (Inr \<lparr>completed = 0, savedFiles = [], lastState = Done\<rparr>)
          \<and> (\<exists>st. runDownloadLoopState w opts fuel = Some (Inr st) \<and> clicks st = 0 \<and>
                   notified st = [OpenCard] \<and> opened st = [skipOf opts]))
       \<and> (mkdirRejects w \<noteq> None \<or> openCardFails w (skipOf opts) \<noteq> None \<longrightarrow>
            (\<exists>e. runDownloadLoopState w opts fuel = Some (Inl e)))"
proof -
  from assms have T: "videosToDownload opts = 0"
    by (simp add: videosToDownload_def)
  have l: "downloadLoop w opts fuel 0 st = Some st" if "saved st = []" for st
    using that T by (subst downloadLoop.simps) simp
  show ?thesis
    using T
    by (auto simp: runDownloadLoop_def runDownloadLoopState_def Let_def l idleState_def
        finishLoop_def resultOf_def split: option.splits)
qed

theorem skip_past_target_downloads_nothing_witness:
  "maxDownloads finishedOptions \<le> skipOf finishedOptions \<and>
   runDownloadLoop feedWorld finishedOptions 0 =
     Some (Inr \<lparr>completed = 0, savedFiles = [], lastState = Done\<rparr>)"
proof -
  have o: "maxDownloads finishedOptions \<le> skipOf finishedOptions"
    by (simp add: finishedOptions_def skipOf_def)
  have f: "mkdirRejects feedWorld = None" "openCardFails feedWorld (skipOf finishedOptions) = None"
    by (simp_all add: feedWorld_def)
  from skip_past_target_downloads_nothing[OF o, of feedWorld 0] f
  have "runDownloadLoop feedWorld finishedOptions 0 =
     Some (Inr \<lparr>completed = 0, savedFiles = [], lastState = Done\<rparr>)"
    by blast
  with o show ?thesis by blast
qed

end
